theory Spec2Isabelle
  imports Complex_Main
begin

section \<open>JavaScript values, strings and containers\<close>

text \<open>
  The room engine lives in \<^verbatim>\<open>server/src/rooms.js\<close> (class \<^verbatim>\<open>RoomManager\<close>) and is driven by
  the WebSocket dispatcher of \<^verbatim>\<open>server/src/index.js\<close>.  Fields of an inbound JSON message
  that the code does not type-check (\<^verbatim>\<open>userName\<close>, \<^verbatim>\<open>text\<close>, \<^verbatim>\<open>name\<close>) are modelled by the
  primitive values below; \<open>JUndefined\<close> is an absent field.  \<open>JNum n\<close> is the integral
  number \<open>n\<close>, of a size that \<^verbatim>\<open>String\<close> writes in plain decimal digits; strings are lists of
  8-bit characters.
\<close>

datatype jsval = JUndefined | JNull | JBool bool | JNum int | JStr string

datatype error = TypeError

text \<open>JavaScript truthiness, as used by \<^verbatim>\<open>||\<close>, \<^verbatim>\<open>&&\<close> and \<^verbatim>\<open>!\<close>.\<close>

fun truthy :: "jsval \<Rightarrow> bool" where
  "truthy JUndefined = False"
| "truthy JNull = False"
| "truthy (JBool b) = b"
| "truthy (JNum n) = (n \<noteq> 0)"
| "truthy (JStr s) = (s \<noteq> [])"

text \<open>\<^verbatim>\<open>a || b\<close> on values.\<close>

definition js_or :: "jsval \<Rightarrow> jsval \<Rightarrow> jsval" where
  "js_or a b = (if truthy a then a else b)"

function nat_digits :: "nat \<Rightarrow> string" where
  "nat_digits n =
     (if n < 10 then [''0123456789'' ! n]
      else nat_digits (n div 10) @ [''0123456789'' ! (n mod 10)])"
  by pat_completeness auto
termination
  by (relation "measure (\<lambda>n. n)") auto

declare nat_digits.simps [simp del]

definition int_to_string :: "int \<Rightarrow> string" where
  "int_to_string i = (if i < 0 then CHR ''-'' # nat_digits (nat (- i)) else nat_digits (nat i))"

text \<open>\<^verbatim>\<open>String(v)\<close>.\<close>

fun String :: "jsval \<Rightarrow> string" where
  "String JUndefined = ''undefined''"
| "String JNull = ''null''"
| "String (JBool b) = (if b then ''true'' else ''false'')"
| "String (JNum n) = int_to_string n"
| "String (JStr s) = s"

text \<open>
  The white space that \<^verbatim>\<open>String.prototype.trim\<close> strips, within the 8-bit range: TAB, LF,
  VT, FF, CR, SPACE and NBSP.
\<close>

definition is_ws :: "char \<Rightarrow> bool" where
  "is_ws c = (of_char c \<in> {9, 10, 11, 12, 13, 32, 160 :: nat})"

definition trim :: "string \<Rightarrow> string" where
  "trim s = rev (dropWhile is_ws (rev (dropWhile is_ws s)))"

text \<open>\<^verbatim>\<open>s.slice(0, n)\<close> for \<open>n \<ge> 0\<close>.\<close>

definition slice0 :: "nat \<Rightarrow> string \<Rightarrow> string" where
  "slice0 n s = take n s"

text \<open>
  A JavaScript \<^verbatim>\<open>Map\<close> whose iteration order matters (\<^verbatim>\<open>room.users\<close>) is an association
  list in insertion order: \<^verbatim>\<open>set\<close> on a present key keeps its position, on a new key
  appends.
\<close>

fun map_set :: "'k \<Rightarrow> 'v \<Rightarrow> ('k \<times> 'v) list \<Rightarrow> ('k \<times> 'v) list" where
  "map_set k v [] = [(k, v)]"
| "map_set k v (p # ps) = (if fst p = k then (k, v) # ps else p # map_set k v ps)"

definition map_get :: "'k \<Rightarrow> ('k \<times> 'v) list \<Rightarrow> 'v option" where
  "map_get k ps = map_of ps k"

definition map_delete :: "'k \<Rightarrow> ('k \<times> 'v) list \<Rightarrow> ('k \<times> 'v) list" where
  "map_delete k ps = filter (\<lambda>p. fst p \<noteq> k) ps"

text \<open>A JavaScript \<^verbatim>\<open>Set\<close> (\<^verbatim>\<open>room.skipVotes\<close>) is a list without repetitions.\<close>

definition set_add :: "'a \<Rightarrow> 'a list \<Rightarrow> 'a list" where
  "set_add x xs = (if x \<in> set xs then xs else xs @ [x])"

definition set_delete :: "'a \<Rightarrow> 'a list \<Rightarrow> 'a list" where
  "set_delete x xs = filter (\<lambda>y. y \<noteq> x) xs"

text \<open>\<^verbatim>\<open>Array.prototype.findIndex\<close>; \<open>None\<close> is the result \<^verbatim>\<open>-1\<close>.\<close>

fun findIndex :: "('a \<Rightarrow> bool) \<Rightarrow> 'a list \<Rightarrow> nat option" where
  "findIndex P [] = None"
| "findIndex P (x # xs) = (if P x then Some 0 else map_option Suc (findIndex P xs))"

text \<open>\<^verbatim>\<open>xs.splice(i, 1)\<close>: the array without its element at \<open>i\<close>.\<close>

definition splice1 :: "nat \<Rightarrow> 'a list \<Rightarrow> 'a list" where
  "splice1 i xs = take i xs @ drop (Suc i) xs"

text \<open>\<^verbatim>\<open>xs[i]\<close> for an integer \<open>i\<close>; \<open>None\<close> is \<^verbatim>\<open>undefined\<close>.\<close>

definition index_opt :: "'a list \<Rightarrow> int \<Rightarrow> 'a option" where
  "index_opt xs i = (if 0 \<le> i \<and> i < int (length xs) then Some (xs ! nat i) else None)"

section \<open>Data model\<close>

definition USER_COLORS :: "string list" where
  "USER_COLORS =
     [''#FF5722'', ''#FF9800'', ''#FFC107'', ''#4CAF50'', ''#2196F3'', ''#9C27B0'',
      ''#E91E63'', ''#00BCD4'', ''#8BC34A'', ''#FF5252'', ''#69F0AE'', ''#40C4FF'']"

datatype playbackState = Playing | Paused

record track =
  track_id :: string
  youtubeId :: string
  title :: string
  thumbnail :: string
  duration :: real
  addedBy :: string
  addedByName :: string

record trackData =
  td_youtubeId :: string
  td_title :: string
  td_thumbnail :: string

record user =
  user_id :: string
  user_name :: string
  color :: string

text \<open>
  A room.  \<open>hostId = None\<close> is \<^verbatim>\<open>null\<close>; times are milliseconds, \<open>elapsed\<close> is seconds.
  JavaScript numbers are taken as exact reals: rounding of doubles is not part of the model.
\<close>

record room =
  room_id :: string
  room_name :: string
  createdAt :: real
  hostId :: "string option"
  queue :: "track list"
  currentIndex :: int
  playbackState :: playbackState
  startedAt :: real
  elapsed :: real
  users :: "(string \<times> user) list"
  skipVotes :: "string list"
  crossfadeDuration :: real

record serializedRoom =
  s_id :: string
  s_name :: string
  s_hostId :: "string option"
  s_queue :: "track list"
  s_currentIndex :: int
  s_playbackState :: playbackState
  s_elapsed :: real
  s_startedAt :: real
  s_users :: "user list"
  s_skipVotes :: nat
  s_skipNeeded :: nat
  s_crossfadeDuration :: real

text \<open>The outbound messages, one constructor for each \<^verbatim>\<open>type\<close>.\<close>

datatype message =
    RoomState serializedRoom string
  | RoomError string
  | QueueUpdated "track list" int
  | PlaybackSync playbackState int real real "string option"
  | UserJoined user
  | UserLeft string
  | SkipVotes nat nat
  | ChatMessage string string string real
  | CrossfadeUpdated real

text \<open>
  The manager.  A WebSocket is a handle (a number).  \<open>rooms\<close>, \<open>connections\<close> and \<open>wsToUser\<close>
  are the three \<^verbatim>\<open>Map\<close>s of the class; \<open>connections\<close> is an association list like
  \<^verbatim>\<open>room.users\<close>, so that its entries can be counted.  A room object is reached only through its
  entry in \<open>rooms\<close>, so a mutation of the object is an update of that entry.  \<open>outbox\<close> records
  every \<^verbatim>\<open>ws.send\<close> that returned, in order.  \<open>broken\<close> is the state of the sockets: the
  handles on which \<^verbatim>\<open>ws.send\<close> throws.  No method of the class changes it.
\<close>

record manager =
  rooms :: "string \<rightharpoonup> room"
  connections :: "(string \<times> (nat \<times> string)) list"
  wsToUser :: "nat \<rightharpoonup> string"
  outbox :: "(nat \<times> message) list"
  broken :: "nat set"

definition new_manager :: manager where
  "new_manager = \<lparr>rooms = Map.empty, connections = [], wsToUser = Map.empty, outbox = [],
                   broken = {}\<rparr>"

section \<open>Sending, broadcasting and leaving\<close>

text \<open>
  \<^verbatim>\<open>sendTo\<close> catches a throwing \<^verbatim>\<open>ws.send\<close> and calls \<^verbatim>\<open>leaveRoom\<close>, which broadcasts, which
  sends: the three methods are mutually recursive.  They are first written with the
  recursive call as the parameter \<open>leave\<close>.
\<close>

definition sendTo_with ::
  "(string \<Rightarrow> manager \<Rightarrow> manager) \<Rightarrow> nat \<Rightarrow> message \<Rightarrow> manager \<Rightarrow> manager" where
  "sendTo_with leave ws payload m =
     (if ws \<notin> broken m then m\<lparr>outbox := outbox m @ [(ws, payload)]\<rparr>
      else (case wsToUser m ws of
              None \<Rightarrow> m
            | Some userId \<Rightarrow> if userId \<noteq> [] then leave userId m else m))"

text \<open>
  The body of the \<^verbatim>\<open>for\<close> loop of \<^verbatim>\<open>broadcastToRoom\<close> for one entry of \<^verbatim>\<open>room.users\<close>.  The
  loop runs over the entries the room had when it started; an entry that a nested
  \<^verbatim>\<open>leaveRoom\<close> deletes meanwhile has lost its connection as well and is passed over, as the
  live iteration of the \<^verbatim>\<open>Map\<close> passes over it.
\<close>

definition broadcast_step_with ::
  "(string \<Rightarrow> manager \<Rightarrow> manager) \<Rightarrow> message \<Rightarrow> nat option \<Rightarrow> manager \<Rightarrow> string \<times> user
     \<Rightarrow> manager" where
  "broadcast_step_with leave payload excludeWs m p =
     (case map_get (fst p) (connections m) of
        None \<Rightarrow> m
      | Some conn \<Rightarrow>
          if Some (fst conn) = excludeWs then m else sendTo_with leave (fst conn) payload m)"

definition broadcast_with ::
  "(string \<Rightarrow> manager \<Rightarrow> manager) \<Rightarrow> string \<Rightarrow> message \<Rightarrow> nat option \<Rightarrow> manager
     \<Rightarrow> manager" where
  "broadcast_with leave roomId payload excludeWs m =
     (case rooms m roomId of
        None \<Rightarrow> m
      | Some room \<Rightarrow> foldl (broadcast_step_with leave payload excludeWs) m (users room))"

text \<open>
  The body of \<^verbatim>\<open>leaveRoom\<close>.  After the broadcast the method goes on with its \<^verbatim>\<open>room\<close>
  object.  If a nested \<^verbatim>\<open>leaveRoom\<close> has deleted the room from \<open>rooms\<close> meanwhile, nothing
  refers to the object any more and the rest has no effect.
\<close>

definition leaveRoom_body ::
  "(string \<Rightarrow> manager \<Rightarrow> manager) \<Rightarrow> string \<Rightarrow> manager \<Rightarrow> manager" where
  "leaveRoom_body leave userId m =
     (case map_get userId (connections m) of
        None \<Rightarrow> m
      | Some conn \<Rightarrow>
          let ws = fst conn; roomId = snd conn;
              m1 = m\<lparr>connections := map_delete userId (connections m),
                     wsToUser := (wsToUser m)(ws := None)\<rparr>
          in (case rooms m roomId of
                None \<Rightarrow> m1
              | Some room \<Rightarrow>
                  let room1 = room\<lparr>users := map_delete userId (users room),
                                   skipVotes := set_delete userId (skipVotes room)\<rparr>;
                      m2 = m1\<lparr>rooms := (rooms m1)(roomId \<mapsto> room1)\<rparr>;
                      m3 = broadcast_with leave roomId (UserLeft userId) None m2
                  in (case rooms m3 roomId of
                        None \<Rightarrow> m3
                      | Some room3 \<Rightarrow>
                          let room4 = (if hostId room3 = Some userId \<and> length (users room3) > 0
                                       then room3\<lparr>hostId := Some (fst (hd (users room3)))\<rparr>
                                       else room3)
                          in if length (users room4) = 0
                             then m3\<lparr>rooms := (rooms m3)(roomId := None)\<rparr>
                             else m3\<lparr>rooms := (rooms m3)(roomId \<mapsto> room4)\<rparr>)))"

text \<open>
  The recursion is closed by counting: a \<^verbatim>\<open>leaveRoom\<close> that gets past its first line deletes an
  entry of \<open>connections\<close>, and nothing on the way adds one, so the calls nest no deeper than
  the number of connections.  \<open>leaveRoom_unfold\<close> below shows that \<open>leaveRoom\<close> satisfies
  the equation of the source.
\<close>

primrec leaveRoom_n :: "nat \<Rightarrow> string \<Rightarrow> manager \<Rightarrow> manager" where
  "leaveRoom_n 0 userId m = m"
| "leaveRoom_n (Suc n) userId m = leaveRoom_body (leaveRoom_n n) userId m"

definition leaveRoom :: "string \<Rightarrow> manager \<Rightarrow> manager" where
  "leaveRoom userId m = leaveRoom_n (Suc (length (connections m))) userId m"

definition sendTo :: "nat \<Rightarrow> message \<Rightarrow> manager \<Rightarrow> manager" where
  "sendTo = sendTo_with leaveRoom"

definition broadcastToRoom :: "string \<Rightarrow> message \<Rightarrow> nat option \<Rightarrow> manager \<Rightarrow> manager" where
  "broadcastToRoom = broadcast_with leaveRoom"

section \<open>Internal helpers\<close>

text \<open>\<^verbatim>\<open>Math.ceil(room.users.size / 2)\<close>.\<close>

definition skipNeeded :: "room \<Rightarrow> nat" where
  "skipNeeded room = nat \<lceil>real (length (users room)) / 2\<rceil>"

definition broadcastPlaybackSync :: "real \<Rightarrow> string \<Rightarrow> manager \<Rightarrow> manager" where
  "broadcastPlaybackSync now roomId m =
     (case rooms m roomId of
        None \<Rightarrow> m
      | Some room \<Rightarrow>
          let elapsed' = (if playbackState room = Playing then (now - startedAt room) / 1000
                          else elapsed room);
              currentTrack = (if currentIndex room \<ge> 0 then index_opt (queue room) (currentIndex room)
                              else None)
          in broadcastToRoom roomId
               (PlaybackSync (playbackState room) (currentIndex room) elapsed' now
                  (map_option youtubeId currentTrack)) None m)"

definition serializeRoom :: "real \<Rightarrow> room \<Rightarrow> serializedRoom" where
  "serializeRoom now room =
     \<lparr>s_id = room_id room, s_name = room_name room, s_hostId = hostId room,
      s_queue = queue room, s_currentIndex = currentIndex room,
      s_playbackState = playbackState room,
      s_elapsed = (if playbackState room = Playing then (now - startedAt room) / 1000
                   else elapsed room),
      s_startedAt = startedAt room, s_users = map snd (users room),
      s_skipVotes = length (skipVotes room), s_skipNeeded = skipNeeded room,
      s_crossfadeDuration = crossfadeDuration room\<rparr>"

text \<open>
  \<^verbatim>\<open>_roomForUser\<close>; the room object comes with the key under which \<open>rooms\<close> holds it.
\<close>

definition roomForUser :: "string \<Rightarrow> manager \<Rightarrow> (string \<times> room) option" where
  "roomForUser userId m =
     (case map_get userId (connections m) of
        None \<Rightarrow> None
      | Some conn \<Rightarrow>
          (case rooms m (snd conn) of None \<Rightarrow> None | Some room \<Rightarrow> Some (snd conn, room)))"

section \<open>Room management\<close>

text \<open>
  Every identifier that \<^verbatim>\<open>nanoid\<close> generates is an argument (\<open>newId\<close>) of the operation that
  asks for it, and so is the reading \<open>now\<close> of \<^verbatim>\<open>Date.now()\<close>: one handler runs within one
  reading of the clock.
\<close>

text \<open>
  \<^verbatim>\<open>name && name.trim() ? name.trim().slice(0, 64) : `Room ${id}`\<close>; a truthy value that is not
  a string has no \<^verbatim>\<open>trim\<close> method, and calling it throws.
\<close>

definition roomName_of :: "string \<Rightarrow> jsval \<Rightarrow> error + string" where
  "roomName_of newId name =
     (if truthy name then
        (case name of
           JStr s \<Rightarrow> Inr (if trim s \<noteq> [] then slice0 64 (trim s) else ''Room '' @ newId)
         | _ \<Rightarrow> Inl TypeError)
      else Inr (''Room '' @ newId))"

definition createRoom ::
  "string \<Rightarrow> real \<Rightarrow> jsval \<Rightarrow> manager \<Rightarrow> error + (manager \<times> string \<times> string)" where
  "createRoom newId now name m =
     (case roomName_of newId name of
        Inl e \<Rightarrow> Inl e
      | Inr roomName \<Rightarrow>
          let room = \<lparr>room_id = newId, room_name = roomName, createdAt = now, hostId = None,
                      queue = [], currentIndex = - 1, playbackState = Paused, startedAt = 0,
                      elapsed = 0, users = [], skipVotes = [], crossfadeDuration = 3\<rparr>
          in Inr (m\<lparr>rooms := (rooms m)(newId \<mapsto> room)\<rparr>, newId, roomName))"

definition getRoom :: "string \<Rightarrow> manager \<Rightarrow> room option" where
  "getRoom roomId m = rooms m roomId"

text \<open>
  \<^verbatim>\<open>(userName || "Anonymous").trim().slice(0, 24)\<close>; as above, a truthy non-string throws.
\<close>

definition userName_of :: "jsval \<Rightarrow> error + string" where
  "userName_of userName =
     (case js_or userName (JStr ''Anonymous'') of
        JStr s \<Rightarrow> Inr (slice0 24 (trim s))
      | _ \<Rightarrow> Inl TypeError)"

definition joinRoom ::
  "string \<Rightarrow> real \<Rightarrow> string \<Rightarrow> jsval \<Rightarrow> nat \<Rightarrow> manager \<Rightarrow> error + manager" where
  "joinRoom newId now roomId userName ws m =
     (case rooms m roomId of
        None \<Rightarrow> Inr (sendTo ws (RoomError ''Room not found'') m)
      | Some room \<Rightarrow>
          (case userName_of userName of
             Inl e \<Rightarrow> Inl e
           | Inr nm \<Rightarrow>
               let userId = newId;
                   colorIndex = length (users room) mod length USER_COLORS;
                   user = \<lparr>user_id = userId, user_name = nm, color = USER_COLORS ! colorIndex\<rparr>;
                   room1 = (if length (users room) = 0 then room\<lparr>hostId := Some userId\<rparr>
                            else room);
                   room2 = room1\<lparr>users := map_set userId user (users room1)\<rparr>;
                   m1 = m\<lparr>rooms := (rooms m)(roomId \<mapsto> room2),
                          connections := map_set userId (ws, roomId) (connections m),
                          wsToUser := (wsToUser m)(ws \<mapsto> userId)\<rparr>;
                   m2 = sendTo ws (RoomState (serializeRoom now room2) userId) m1
               in Inr (broadcastToRoom roomId (UserJoined user) (Some ws) m2)))"

text \<open>\<^verbatim>\<open>if (userId) ...\<close>: an absent entry and the empty string are both falsy.\<close>

definition leaveByWs :: "nat \<Rightarrow> manager \<Rightarrow> manager" where
  "leaveByWs ws m =
     (case wsToUser m ws of
        None \<Rightarrow> m
      | Some userId \<Rightarrow> if userId \<noteq> [] then leaveRoom userId m else m)"

section \<open>Queue management\<close>

definition addTrack :: "string \<Rightarrow> real \<Rightarrow> string \<Rightarrow> trackData \<Rightarrow> manager \<Rightarrow> manager" where
  "addTrack newId now userId td m =
     (case map_get userId (connections m) of
        None \<Rightarrow> m
      | Some conn \<Rightarrow>
          (case rooms m (snd conn) of
             None \<Rightarrow> m
           | Some room \<Rightarrow>
               let usr = map_get userId (users room);
                   track = \<lparr>track_id = newId, youtubeId = td_youtubeId td, title = td_title td,
                            thumbnail = td_thumbnail td, duration = 0, addedBy = userId,
                            addedByName = (case usr of Some u \<Rightarrow> user_name u
                                           | None \<Rightarrow> ''Unknown'')\<rparr>;
                   room1 = room\<lparr>queue := queue room @ [track]\<rparr>;
                   room2 = (if currentIndex room1 = - 1
                            then room1\<lparr>currentIndex := 0, elapsed := 0, startedAt := now,
                                       playbackState := Playing\<rparr>
                            else room1);
                   m1 = m\<lparr>rooms := (rooms m)(snd conn \<mapsto> room2)\<rparr>;
                   m2 = broadcastToRoom (snd conn)
                          (QueueUpdated (queue room2) (currentIndex room2)) None m1
               in broadcastPlaybackSync now (snd conn) m2))"

text \<open>The index fix-up of \<^verbatim>\<open>removeTrack\<close>, run after the \<^verbatim>\<open>splice\<close>.\<close>

definition removeTrack_fixup :: "real \<Rightarrow> nat \<Rightarrow> room \<Rightarrow> room" where
  "removeTrack_fixup now trackIndex room =
     (if int trackIndex < currentIndex room then room\<lparr>currentIndex := currentIndex room - 1\<rparr>
      else if int trackIndex = currentIndex room then
        (if length (queue room) = 0
         then room\<lparr>currentIndex := - 1, playbackState := Paused, elapsed := 0\<rparr>
         else if currentIndex room \<ge> int (length (queue room))
         then room\<lparr>currentIndex := int (length (queue room)) - 1, startedAt := now,
                   elapsed := 0, playbackState := Playing\<rparr>
         else room\<lparr>startedAt := now, elapsed := 0, playbackState := Playing\<rparr>)
        \<lparr>skipVotes := []\<rparr>
      else room)"

definition removeTrack :: "real \<Rightarrow> string \<Rightarrow> string \<Rightarrow> manager \<Rightarrow> manager" where
  "removeTrack now userId trackId m =
     (case map_get userId (connections m) of
        None \<Rightarrow> m
      | Some conn \<Rightarrow>
          (case rooms m (snd conn) of
             None \<Rightarrow> m
           | Some room \<Rightarrow>
               (case findIndex (\<lambda>t. track_id t = trackId) (queue room) of
                  None \<Rightarrow> m
                | Some trackIndex \<Rightarrow>
                    let track = queue room ! trackIndex;
                        isHost = (hostId room = Some userId);
                        isOwner = (addedBy track = userId)
                    in if \<not> isHost \<and> \<not> isOwner then m
                       else
                         let room1 = room\<lparr>queue := splice1 trackIndex (queue room)\<rparr>;
                             room2 = removeTrack_fixup now trackIndex room1;
                             m1 = m\<lparr>rooms := (rooms m)(snd conn \<mapsto> room2)\<rparr>;
                             m2 = broadcastToRoom (snd conn)
                                    (QueueUpdated (queue room2) (currentIndex room2)) None m1
                         in broadcastPlaybackSync now (snd conn) m2)))"

section \<open>Playback controls\<close>

definition play :: "real \<Rightarrow> string \<Rightarrow> manager \<Rightarrow> manager" where
  "play now userId m =
     (case roomForUser userId m of
        None \<Rightarrow> m
      | Some (key, room) \<Rightarrow>
          if currentIndex room = - 1 \<or> playbackState room = Playing then m
          else
            let room1 = room\<lparr>startedAt := now - elapsed room * 1000, playbackState := Playing\<rparr>;
                m1 = m\<lparr>rooms := (rooms m)(key \<mapsto> room1)\<rparr>
            in broadcastPlaybackSync now (room_id room1) m1)"

definition pause :: "real \<Rightarrow> string \<Rightarrow> manager \<Rightarrow> manager" where
  "pause now userId m =
     (case roomForUser userId m of
        None \<Rightarrow> m
      | Some (key, room) \<Rightarrow>
          if playbackState room = Paused then m
          else
            let room1 = room\<lparr>elapsed := (now - startedAt room) / 1000, playbackState := Paused\<rparr>;
                m1 = m\<lparr>rooms := (rooms m)(key \<mapsto> room1)\<rparr>
            in broadcastPlaybackSync now (room_id room1) m1)"

definition nextTrack :: "real \<Rightarrow> string \<Rightarrow> manager \<Rightarrow> manager" where
  "nextTrack now roomId m =
     (case rooms m roomId of
        None \<Rightarrow> m
      | Some room \<Rightarrow>
          let room1 = room\<lparr>skipVotes := []\<rparr>;
              room2 = (if length (queue room1) = 0
                       then room1\<lparr>currentIndex := - 1, playbackState := Paused, elapsed := 0\<rparr>
                       else if currentIndex room1 < int (length (queue room1)) - 1
                       then room1\<lparr>currentIndex := currentIndex room1 + 1, elapsed := 0,
                                  startedAt := now, playbackState := Playing\<rparr>
                       else room1\<lparr>currentIndex := - 1, playbackState := Paused, elapsed := 0\<rparr>);
              m1 = m\<lparr>rooms := (rooms m)(roomId \<mapsto> room2)\<rparr>;
              m2 = broadcastToRoom roomId
                     (QueueUpdated (queue room2) (currentIndex room2)) None m1
          in broadcastPlaybackSync now roomId m2)"

definition skip :: "real \<Rightarrow> string \<Rightarrow> manager \<Rightarrow> manager" where
  "skip now userId m =
     (case roomForUser userId m of
        None \<Rightarrow> m
      | Some (key, room) \<Rightarrow>
          if currentIndex room = - 1 then m
          else
            let room1 = room\<lparr>skipVotes := set_add userId (skipVotes room)\<rparr>;
                m1 = m\<lparr>rooms := (rooms m)(key \<mapsto> room1)\<rparr>;
                needed = skipNeeded room1;
                current = length (skipVotes room1);
                m2 = broadcastToRoom (room_id room1) (SkipVotes current needed) None m1
            in if current \<ge> needed then nextTrack now (room_id room1) m2 else m2)"

text \<open>
  \<^verbatim>\<open>seek\<close> and \<^verbatim>\<open>setCrossfade\<close> take the number \<^verbatim>\<open>Number(x) || 0\<close> that the handler computes
  from the message field.
\<close>

definition seek :: "real \<Rightarrow> string \<Rightarrow> real \<Rightarrow> manager \<Rightarrow> manager" where
  "seek now userId time m =
     (case roomForUser userId m of
        None \<Rightarrow> m
      | Some (key, room) \<Rightarrow>
          if currentIndex room = - 1 then m
          else
            let seekTime = max 0 time;
                room1 = (if playbackState room = Playing
                         then room\<lparr>startedAt := now - seekTime * 1000\<rparr>
                         else room\<lparr>elapsed := seekTime\<rparr>);
                m1 = m\<lparr>rooms := (rooms m)(key \<mapsto> room1)\<rparr>
            in broadcastPlaybackSync now (room_id room1) m1)"

section \<open>Chat and crossfade\<close>

text \<open>\<^verbatim>\<open>String(text || "").trim().slice(0, 500)\<close>.\<close>

definition sanitize :: "jsval \<Rightarrow> string" where
  "sanitize text = slice0 500 (trim (String (js_or text (JStr ''''))))"

definition chat :: "real \<Rightarrow> string \<Rightarrow> jsval \<Rightarrow> manager \<Rightarrow> manager" where
  "chat now userId text m =
     (case map_get userId (connections m) of
        None \<Rightarrow> m
      | Some conn \<Rightarrow>
          (case rooms m (snd conn) of
             None \<Rightarrow> m
           | Some room \<Rightarrow>
               (case map_get userId (users room) of
                  None \<Rightarrow> m
                | Some usr \<Rightarrow>
                    let sanitized = sanitize text
                    in if sanitized = [] then m
                       else broadcastToRoom (snd conn)
                              (ChatMessage userId (user_name usr) sanitized now) None m)))"

definition setCrossfade :: "string \<Rightarrow> real \<Rightarrow> manager \<Rightarrow> manager" where
  "setCrossfade userId dur m =
     (case map_get userId (connections m) of
        None \<Rightarrow> m
      | Some conn \<Rightarrow>
          (case rooms m (snd conn) of
             None \<Rightarrow> m
           | Some room \<Rightarrow>
               let clamped = max 0 (min 8 dur);
                   m1 = m\<lparr>rooms := (rooms m)(snd conn \<mapsto> room\<lparr>crossfadeDuration := clamped\<rparr>)\<rparr>
               in broadcastToRoom (snd conn) (CrossfadeUpdated clamped) None m1))"

section \<open>The dispatcher\<close>

text \<open>
  What reaches the manager from \<^verbatim>\<open>index.js\<close>: the HTTP route that creates a room, the frames
  of a WebSocket, its closing, and the completion of \<^verbatim>\<open>handleQueueAdd\<close>, which calls
  \<^verbatim>\<open>addTrack\<close> for the user id it captured once the metadata has arrived.  A frame other
  than \<^verbatim>\<open>join\<close> is dropped unless \<^verbatim>\<open>wsToUser\<close> gives a truthy user id for the socket.  A
  room id is a string here: any other value is a key that \<open>rooms\<close> does not have.  The last
  event is not a call: from then on \<^verbatim>\<open>ws.send\<close> throws on that socket.
\<close>

datatype event =
    HttpCreateRoom string jsval
  | WsJoin nat string jsval string
  | WsQueueAddInvalid nat
  | QueueAddResolved string trackData string
  | WsQueueRemove nat string
  | WsPlay nat
  | WsPause nat
  | WsSkip nat
  | WsSeek nat real
  | WsChat nat jsval
  | WsCrossfade nat real
  | WsClose nat
  | SocketBreaks nat

definition userOfWs :: "nat \<Rightarrow> manager \<Rightarrow> string option" where
  "userOfWs ws m =
     (case wsToUser m ws of
        None \<Rightarrow> None
      | Some userId \<Rightarrow> if userId \<noteq> [] then Some userId else None)"

fun handle :: "real \<Rightarrow> event \<Rightarrow> manager \<Rightarrow> manager" where
  "handle now (HttpCreateRoom newId name) m =
     (case createRoom newId now name m of Inl e \<Rightarrow> m | Inr r \<Rightarrow> fst r)"
| "handle now (WsJoin ws roomId userName newId) m =
     (case joinRoom newId now roomId userName ws m of Inl e \<Rightarrow> m | Inr m' \<Rightarrow> m')"
| "handle now (WsQueueAddInvalid ws) m =
     (case userOfWs ws m of
        None \<Rightarrow> m
      | Some userId \<Rightarrow>
          (case map_get userId (connections m) of
             None \<Rightarrow> m
           | Some conn \<Rightarrow> sendTo (fst conn) (RoomError ''Invalid YouTube URL'') m))"
| "handle now (QueueAddResolved userId td newId) m = addTrack newId now userId td m"
| "handle now (WsQueueRemove ws trackId) m =
     (case userOfWs ws m of None \<Rightarrow> m | Some userId \<Rightarrow> removeTrack now userId trackId m)"
| "handle now (WsPlay ws) m =
     (case userOfWs ws m of None \<Rightarrow> m | Some userId \<Rightarrow> play now userId m)"
| "handle now (WsPause ws) m =
     (case userOfWs ws m of None \<Rightarrow> m | Some userId \<Rightarrow> pause now userId m)"
| "handle now (WsSkip ws) m =
     (case userOfWs ws m of None \<Rightarrow> m | Some userId \<Rightarrow> skip now userId m)"
| "handle now (WsSeek ws time) m =
     (case userOfWs ws m of None \<Rightarrow> m | Some userId \<Rightarrow> seek now userId time m)"
| "handle now (WsChat ws text) m =
     (case userOfWs ws m of None \<Rightarrow> m | Some userId \<Rightarrow> chat now userId text m)"
| "handle now (WsCrossfade ws dur) m =
     (case userOfWs ws m of None \<Rightarrow> m | Some userId \<Rightarrow> setCrossfade userId dur m)"
| "handle now (WsClose ws) m = leaveByWs ws m"
| "handle now (SocketBreaks ws) m = m\<lparr>broken := insert ws (broken m)\<rparr>"

text \<open>A run of the server: the events in order, each with the clock reading of its handler.\<close>

fun run :: "(real \<times> event) list \<Rightarrow> manager \<Rightarrow> manager" where
  "run [] m = m"
| "run (e # es) m = run es (handle (fst e) (snd e) m)"

text \<open>The sockets that a broadcast over the users \<open>us\<close> writes to, in order.\<close>

definition recipients :: "manager \<Rightarrow> (string \<times> user) list \<Rightarrow> nat option \<Rightarrow> nat list" where
  "recipients m us excludeWs =
     concat (map (\<lambda>p. case map_get (fst p) (connections m) of
                         None \<Rightarrow> []
                       | Some conn \<Rightarrow> if Some (fst conn) = excludeWs then [] else [fst conn]) us)"

section \<open>The invariant I1 and a sample session\<close>

text \<open>
  I1 of the data model.  The room has no field that says whether a track has been scheduled:
  \<open>currentIndex = -1\<close> is that state.  So I1 says that an empty queue forces
  \<open>currentIndex = -1\<close>, and that any other value of \<open>currentIndex\<close> is an index into the queue.
\<close>

definition I1 :: "room \<Rightarrow> bool" where
  "I1 room =
     ((queue room = [] \<longrightarrow> currentIndex room = - 1) \<and>
      (currentIndex room = - 1 \<or>
       (0 \<le> currentIndex room \<and> currentIndex room < int (length (queue room)))))"

text \<open>
  A session used to instantiate the theorems below: a room is created, Alice, Bob and Carol
  join over the sockets 1, 2 and 3, and Alice queues three tracks.
\<close>

definition sample_events :: "(real \<times> event) list" where
  "sample_events =
     [(0, HttpCreateRoom ''room0001'' (JStr ''Party'')),
      (1, WsJoin 1 ''room0001'' (JStr ''Alice'') ''alice''),
      (2, WsJoin 2 ''room0001'' (JStr ''Bob'') ''bob''),
      (3, WsJoin 3 ''room0001'' JUndefined ''carol''),
      (10, QueueAddResolved ''alice'' \<lparr>td_youtubeId = ''yA'', td_title = ''A'', td_thumbnail = ''pA''\<rparr> ''tA''),
      (11, QueueAddResolved ''bob'' \<lparr>td_youtubeId = ''yB'', td_title = ''B'', td_thumbnail = ''pB''\<rparr> ''tB''),
      (12, QueueAddResolved ''alice'' \<lparr>td_youtubeId = ''yC'', td_title = ''C'', td_thumbnail = ''pC''\<rparr> ''tC'')]"

definition sample_users :: "(string \<times> user) list" where
  "sample_users =
     [(''alice'', \<lparr>user_id = ''alice'', user_name = ''Alice'', color = ''#FF5722''\<rparr>),
      (''bob'', \<lparr>user_id = ''bob'', user_name = ''Bob'', color = ''#FF9800''\<rparr>),
      (''carol'', \<lparr>user_id = ''carol'', user_name = ''Anonymous'', color = ''#FFC107''\<rparr>)]"

definition sample_queue :: "track list" where
  "sample_queue =
     [\<lparr>track_id = ''tA'', youtubeId = ''yA'', title = ''A'', thumbnail = ''pA'', duration = 0,
       addedBy = ''alice'', addedByName = ''Alice''\<rparr>,
      \<lparr>track_id = ''tB'', youtubeId = ''yB'', title = ''B'', thumbnail = ''pB'', duration = 0,
       addedBy = ''bob'', addedByName = ''Bob''\<rparr>,
      \<lparr>track_id = ''tC'', youtubeId = ''yC'', title = ''C'', thumbnail = ''pC'', duration = 0,
       addedBy = ''alice'', addedByName = ''Alice''\<rparr>]"

definition sample_room :: room where
  "sample_room =
     \<lparr>room_id = ''room0001'', room_name = ''Party'', createdAt = 0, hostId = Some ''alice'',
      queue = sample_queue, currentIndex = 0, playbackState = Playing, startedAt = 10,
      elapsed = 0, users = sample_users, skipVotes = [], crossfadeDuration = 3\<rparr>"

definition sample_rooms :: "string \<rightharpoonup> room" where
  "sample_rooms = [''room0001'' \<mapsto> sample_room]"

definition sample_connections :: "(string \<times> (nat \<times> string)) list" where
  "sample_connections =
     [(''alice'', (1, ''room0001'')), (''bob'', (2, ''room0001'')),
      (''carol'', (3, ''room0001''))]"

definition sample_wsToUser :: "nat \<rightharpoonup> string" where
  "sample_wsToUser = [1 \<mapsto> ''alice'', 2 \<mapsto> ''bob'', 3 \<mapsto> ''carol'']"

definition sample_manager :: manager where
  "sample_manager = run sample_events new_manager"

text \<open>A property of every room that the manager holds.\<close>

definition all_rooms :: "(room \<Rightarrow> bool) \<Rightarrow> manager \<Rightarrow> bool" where
  "all_rooms P m = (\<forall>rid r. rooms m rid = Some r \<longrightarrow> P r)"

text \<open>Every room is held under its own \<open>id\<close>, as \<^verbatim>\<open>createRoom\<close> registers it.\<close>

definition keyed :: "manager \<Rightarrow> bool" where
  "keyed m = (\<forall>k r. rooms m k = Some r \<longrightarrow> room_id r = k)"

section \<open>A user left behind by a second join\<close>

text \<open>
  \<^verbatim>\<open>nanoid\<close> does not repeat an identifier: an event avoids \<open>u\<close> and \<open>r\<close> when it generates
  neither the user id \<open>u\<close> nor the room id \<open>r\<close> again.
\<close>

fun avoids_ids :: "string \<Rightarrow> string \<Rightarrow> event \<Rightarrow> bool" where
  "avoids_ids u r (HttpCreateRoom newId name) = (newId \<noteq> r)"
| "avoids_ids u r (WsJoin ws roomId userName newId) = (newId \<noteq> u)"
| "avoids_ids u r ev = True"

text \<open>
  The user \<open>u\<close> is a member of the room \<open>r\<close> and connected through \<open>ws\<close>, but no socket
  leads to \<open>u\<close> any more.
\<close>

definition orphaned :: "string \<Rightarrow> nat \<Rightarrow> string \<Rightarrow> manager \<Rightarrow> bool" where
  "orphaned u ws r m =
     (map_get u (connections m) = Some (ws, r) \<and>
      (\<exists>room. rooms m r = Some room \<and> u \<in> fst ` set (users room)) \<and>
      (\<forall>w. wsToUser m w \<noteq> Some u))"

section \<open>Maps and sets as lists\<close>

lemma map_get_set_same: "map_get k (map_set k v ps) = Some v"
  unfolding map_get_def by (induction ps) simp_all

lemma map_get_set_other: "k' \<noteq> k \<Longrightarrow> map_get k' (map_set k v ps) = map_get k' ps"
  unfolding map_get_def by (induction ps) simp_all

lemma map_get_set [simp]:
  "map_get k' (map_set k v ps) = (if k' = k then Some v else map_get k' ps)"
  by (simp add: map_get_set_same map_get_set_other)

lemma map_get_delete_same: "map_get k (map_delete k ps) = None"
  unfolding map_get_def map_delete_def by (induction ps) simp_all

lemma map_get_delete_other: "k' \<noteq> k \<Longrightarrow> map_get k' (map_delete k ps) = map_get k' ps"
  unfolding map_get_def map_delete_def by (induction ps) simp_all

lemma map_get_delete [simp]:
  "map_get k' (map_delete k ps) = (if k' = k then None else map_get k' ps)"
  by (simp add: map_get_delete_same map_get_delete_other)

lemma length_map_delete_less: "map_get k ps = Some v \<Longrightarrow> length (map_delete k ps) < length ps"
  unfolding map_get_def map_delete_def
proof (induction ps)
  case Nil
  then show ?case by simp
next
  case (Cons p ps)
  have "length (filter (\<lambda>p. fst p \<noteq> k) ps) \<le> length ps" by simp
  with Cons show ?case by (cases "fst p = k") (auto simp: less_Suc_eq_le)
qed

lemma length_map_delete_le: "length (map_delete k ps) \<le> length ps"
  by (simp add: map_delete_def)

lemma keys_map_set: "fst ` set (map_set k v ps) = insert k (fst ` set ps)"
  by (induction ps) auto

lemma map_delete_keys: "k \<notin> fst ` set (map_delete k ps)"
  by (auto simp: map_delete_def)

lemma set_delete_notin: "x \<notin> set (set_delete x xs)"
  by (simp add: set_delete_def)

lemma map_get_SomeD: "map_get k ps = Some v \<Longrightarrow> (k, v) \<in> set ps"
  by (simp add: map_get_def map_of_SomeD)

section \<open>The mutual recursion of sending, broadcasting and leaving\<close>

text \<open>
  A property that survives a recorded send and every \<open>leave\<close> that a throwing socket can
  trigger survives a send and a broadcast.
\<close>

lemma sendTo_with_rule:
  assumes "P m"
    and "\<And>m' w. P m' \<Longrightarrow> P (m'\<lparr>outbox := outbox m' @ [(w, p)]\<rparr>)"
    and "\<And>m' w v. P m' \<Longrightarrow> wsToUser m' w = Some v \<Longrightarrow> P (leave v m')"
  shows "P (sendTo_with leave ws p m)"
proof (cases "ws \<in> broken m")
  case False
  then show ?thesis using assms(2) [OF assms(1)] by (simp add: sendTo_with_def)
next
  case True
  show ?thesis
  proof (cases "wsToUser m ws")
    case None
    then show ?thesis using True assms(1) by (simp add: sendTo_with_def)
  next
    case (Some v)
    from assms(3) [OF assms(1) Some] show ?thesis
      using True Some assms(1) by (simp add: sendTo_with_def)
  qed
qed

lemma broadcast_step_rule:
  assumes "P m"
    and "\<And>m' ws. P m' \<Longrightarrow> P (m'\<lparr>outbox := outbox m' @ [(ws, p)]\<rparr>)"
    and "\<And>m' w v. P m' \<Longrightarrow> wsToUser m' w = Some v \<Longrightarrow> P (leave v m')"
  shows "P (broadcast_step_with leave p ex m u)"
proof (cases "map_get (fst u) (connections m)")
  case None
  then show ?thesis using assms(1) by (simp add: broadcast_step_with_def)
next
  case (Some conn)
  have "P (sendTo_with leave (fst conn) p m)"
    by (rule sendTo_with_rule [where P = P and p = p and leave = leave]) (fact assms)+
  then show ?thesis using Some assms(1) by (simp add: broadcast_step_with_def)
qed

lemma broadcast_fold_rule:
  assumes "P m"
    and "\<And>m' ws. P m' \<Longrightarrow> P (m'\<lparr>outbox := outbox m' @ [(ws, p)]\<rparr>)"
    and "\<And>m' w v. P m' \<Longrightarrow> wsToUser m' w = Some v \<Longrightarrow> P (leave v m')"
  shows "P (foldl (broadcast_step_with leave p ex) m us)"
  using assms(1)
proof (induction us arbitrary: m)
  case Nil
  then show ?case by simp
next
  case (Cons u us)
  have "P (broadcast_step_with leave p ex m u)"
    by (rule broadcast_step_rule [where P = P and p = p and leave = leave])
      (fact Cons.prems assms(2) assms(3))+
  from Cons.IH [OF this] show ?case by simp
qed

lemma broadcast_with_rule:
  assumes "P m"
    and "\<And>m' ws. P m' \<Longrightarrow> P (m'\<lparr>outbox := outbox m' @ [(ws, p)]\<rparr>)"
    and "\<And>m' w v. P m' \<Longrightarrow> wsToUser m' w = Some v \<Longrightarrow> P (leave v m')"
  shows "P (broadcast_with leave rid p ex m)"
proof (cases "rooms m rid")
  case None
  then show ?thesis using assms(1) by (simp add: broadcast_with_def)
next
  case (Some room)
  have "P (foldl (broadcast_step_with leave p ex) m (users room))"
    by (rule broadcast_fold_rule [where P = P and p = p and leave = leave]) (fact assms)+
  then show ?thesis using Some by (simp add: broadcast_with_def)
qed

text \<open>Two \<open>leave\<close> functions that agree where a property holds give the same broadcast.\<close>

lemma broadcast_fold_cong:
  assumes "Q m"
    and "\<And>m' ws. Q m' \<Longrightarrow> Q (m'\<lparr>outbox := outbox m' @ [(ws, p)]\<rparr>)"
    and "\<And>m' v. Q m' \<Longrightarrow> Q (leave1 v m')"
    and "\<And>m' v. Q m' \<Longrightarrow> leave1 v m' = leave2 v m'"
  shows "foldl (broadcast_step_with leave1 p ex) m us =
         foldl (broadcast_step_with leave2 p ex) m us"
  using assms(1)
proof (induction us arbitrary: m)
  case Nil
  then show ?case by simp
next
  case (Cons u us)
  have eq: "broadcast_step_with leave1 p ex m u = broadcast_step_with leave2 p ex m u"
    using assms(4) [OF Cons.prems]
    by (simp add: broadcast_step_with_def sendTo_with_def split: option.splits)
  have "Q (broadcast_step_with leave1 p ex m u)"
  proof (rule broadcast_step_rule [where P = Q and p = p and leave = leave1])
    show "Q m" by (rule Cons.prems)
  next
    fix m' ws assume "Q m'"
    then show "Q (m'\<lparr>outbox := outbox m' @ [(ws, p)]\<rparr>)" by (rule assms(2))
  next
    fix m' w v assume "Q m'" and "wsToUser m' w = Some v"
    then show "Q (leave1 v m')" by (intro assms(3))
  qed
  from Cons.IH [OF this] show ?case
    by (simp add: eq)
qed

lemma broadcast_with_cong:
  assumes "Q m"
    and "\<And>m' ws. Q m' \<Longrightarrow> Q (m'\<lparr>outbox := outbox m' @ [(ws, p)]\<rparr>)"
    and "\<And>m' v. Q m' \<Longrightarrow> Q (leave1 v m')"
    and "\<And>m' v. Q m' \<Longrightarrow> leave1 v m' = leave2 v m'"
  shows "broadcast_with leave1 rid p ex m = broadcast_with leave2 rid p ex m"
proof (cases "rooms m rid")
  case None
  then show ?thesis by (simp add: broadcast_with_def)
next
  case (Some room)
  have "foldl (broadcast_step_with leave1 p ex) m (users room) =
        foldl (broadcast_step_with leave2 p ex) m (users room)"
    by (rule broadcast_fold_cong [where Q = Q and p = p]) (fact assms)+
  then show ?thesis using Some by (simp add: broadcast_with_def)
qed

text \<open>
  A property of the manager that looks at \<open>broken\<close> and at the number of connections only,
  and allows that number to fall, survives \<^verbatim>\<open>leaveRoom\<close>.
\<close>

lemma leaveRoom_body_broken:
  assumes "\<And>v m'. broken (leave v m') = broken m'"
  shows "broken (leaveRoom_body leave u m) = broken m"
proof -
  have b: "broken (broadcast_with leave rid p ex m') = broken m'" for rid p ex m'
    by (rule broadcast_with_rule [where P = "\<lambda>x. broken x = broken m'"]) (simp_all add: assms)
  show ?thesis
    by (simp add: leaveRoom_body_def Let_def b split: option.splits)
qed

lemma leaveRoom_n_broken [simp]: "broken (leaveRoom_n k u m) = broken m"
proof (induction k arbitrary: u m)
  case 0
  show ?case by simp
next
  case (Suc k)
  show ?case
    unfolding leaveRoom_n.simps by (rule leaveRoom_body_broken) (rule Suc.IH)
qed

lemma leaveRoom_broken [simp]: "broken (leaveRoom u m) = broken m"
  unfolding leaveRoom_def by (rule leaveRoom_n_broken)

lemma leaveRoom_body_length:
  assumes "\<And>v m'. length (connections (leave v m')) \<le> length (connections m')"
  shows "length (connections (leaveRoom_body leave u m)) \<le> length (connections m)"
proof -
  have b: "length (connections (broadcast_with leave rid p ex m')) \<le> n"
    if "length (connections m') \<le> n" for rid p ex m' n
  proof (rule broadcast_with_rule [where P = "\<lambda>x. length (connections x) \<le> n"])
    show "length (connections m') \<le> n" by (rule that)
  next
    fix x :: manager and w :: nat and v assume "length (connections x) \<le> n"
    with assms [of v x] show "length (connections (leave v x)) \<le> n" by simp
  qed simp
  show ?thesis
  proof (cases "map_get u (connections m)")
    case None
    then show ?thesis by (simp add: leaveRoom_body_def)
  next
    case (Some conn)
    show ?thesis
    proof (cases "rooms m (snd conn)")
      case None
      then show ?thesis
        using Some by (simp add: leaveRoom_body_def Let_def length_map_delete_le)
    next
      case (Some room)
      define m2 where "m2 = m\<lparr>connections := map_delete u (connections m),
          wsToUser := (wsToUser m)(fst conn := None),
          rooms := (rooms m)(snd conn \<mapsto> room\<lparr>users := map_delete u (users room),
                      skipVotes := set_delete u (skipVotes room)\<rparr>)\<rparr>"
      have "length (connections m2) \<le> length (connections m)"
        by (simp add: m2_def length_map_delete_le)
      then have "length (connections (broadcast_with leave (snd conn) (UserLeft u) None m2))
                 \<le> length (connections m)"
        by (rule b)
      then show ?thesis
        using Some \<open>map_get u (connections m) = Some conn\<close>
        by (simp add: leaveRoom_body_def Let_def m2_def split: option.splits)
    qed
  qed
qed

lemma leaveRoom_n_length: "length (connections (leaveRoom_n k u m)) \<le> length (connections m)"
proof (induction k arbitrary: u m)
  case 0
  show ?case by simp
next
  case (Suc k)
  show ?case
    unfolding leaveRoom_n.simps by (rule leaveRoom_body_length) (rule Suc.IH)
qed

text \<open>More fuel than there are connections changes nothing.\<close>

lemma leaveRoom_body_cong:
  assumes "\<And>m' v. length (connections m') < length (connections m) \<Longrightarrow>
             leave1 v m' = leave2 v m'"
    and "\<And>m' v. length (connections (leave1 v m')) \<le> length (connections m')"
  shows "leaveRoom_body leave1 u m = leaveRoom_body leave2 u m"
proof (cases "map_get u (connections m)")
  case None
  then show ?thesis by (simp add: leaveRoom_body_def)
next
  case (Some conn)
  note conn = this
  have less: "length (map_delete u (connections m)) < length (connections m)"
    using Some by (rule length_map_delete_less)
  have bc: "broadcast_with leave1 rid p ex m' = broadcast_with leave2 rid p ex m'"
    if "length (connections m') < length (connections m)" for rid p ex m'
  proof (rule broadcast_with_cong
      [where Q = "\<lambda>x. length (connections x) < length (connections m)"])
    show "length (connections m') < length (connections m)" by (rule that)
  next
    fix x :: manager and v assume "length (connections x) < length (connections m)"
    then show "length (connections (leave1 v x)) < length (connections m)"
      using assms(2) [of v x] by simp
  qed (simp_all add: assms(1))
  show ?thesis
  proof (cases "rooms m (snd conn)")
    case None
    then show ?thesis using conn by (simp add: leaveRoom_body_def Let_def)
  next
    case (Some room)
    define m2 where "m2 = m\<lparr>connections := map_delete u (connections m),
        wsToUser := (wsToUser m)(fst conn := None),
        rooms := (rooms m)(snd conn \<mapsto> room\<lparr>users := map_delete u (users room),
                    skipVotes := set_delete u (skipVotes room)\<rparr>)\<rparr>"
    have "length (connections m2) < length (connections m)"
      using less by (simp add: m2_def)
    then have "broadcast_with leave1 (snd conn) (UserLeft u) None m2 =
               broadcast_with leave2 (snd conn) (UserLeft u) None m2"
      by (rule bc)
    then show ?thesis
      using Some conn
      by (simp add: leaveRoom_body_def Let_def m2_def cong: option.case_cong if_cong)
  qed
qed

lemma leaveRoom_n_mono:
  "length (connections m) \<le> k \<Longrightarrow> k \<le> k' \<Longrightarrow> leaveRoom_n k u m = leaveRoom_n k' u m"
proof (induction k arbitrary: k' u m)
  case 0
  then have "map_get u (connections m) = None" by (simp add: map_get_def)
  then show ?case by (cases k') (simp_all add: leaveRoom_body_def)
next
  case (Suc k)
  then obtain j where k': "k' = Suc j" and j: "k \<le> j" by (cases k') auto
  have "leaveRoom_body (leaveRoom_n k) u m = leaveRoom_body (leaveRoom_n j) u m"
  proof (rule leaveRoom_body_cong)
    fix m' :: manager and v assume "length (connections m') < length (connections m)"
    then have "length (connections m') \<le> k" using Suc.prems(1) by simp
    then show "leaveRoom_n k v m' = leaveRoom_n j v m'" using j by (rule Suc.IH)
  qed (rule leaveRoom_n_length)
  then show ?case by (simp add: k')
qed

text \<open>
  \<^verbatim>\<open>leaveRoom\<close> satisfies the equation of the source: its body, with \<^verbatim>\<open>leaveRoom\<close> itself for the
  call in \<^verbatim>\<open>sendTo\<close>.
\<close>

lemma leaveRoom_unfold: "leaveRoom u m = leaveRoom_body leaveRoom u m"
proof -
  have "leaveRoom_body (leaveRoom_n (length (connections m))) u m = leaveRoom_body leaveRoom u m"
  proof (rule leaveRoom_body_cong)
    fix m' :: manager and v assume "length (connections m') < length (connections m)"
    then have "leaveRoom_n (Suc (length (connections m'))) v m' =
               leaveRoom_n (length (connections m)) v m'"
      by (intro leaveRoom_n_mono) simp_all
    then show "leaveRoom_n (length (connections m)) v m' = leaveRoom v m'"
      by (simp add: leaveRoom_def)
  qed (rule leaveRoom_n_length)
  then show ?thesis by (simp add: leaveRoom_def)
qed

lemma leaveRoom_length: "length (connections (leaveRoom u m)) \<le> length (connections m)"
  unfolding leaveRoom_def by (rule leaveRoom_n_length)

section \<open>Sockets that do not throw\<close>

lemma sendTo_broken [simp]: "broken (sendTo ws p m) = broken m"
  unfolding sendTo_def
  by (rule sendTo_with_rule [where P = "\<lambda>x. broken x = broken m"]) simp_all

lemma broadcastToRoom_broken [simp]: "broken (broadcastToRoom rid p ex m) = broken m"
  unfolding broadcastToRoom_def
  by (rule broadcast_with_rule [where P = "\<lambda>x. broken x = broken m"]) simp_all

lemma broadcastPlaybackSync_broken [simp]: "broken (broadcastPlaybackSync now rid m) = broken m"
  by (simp add: broadcastPlaybackSync_def Let_def split: option.split)

lemma sendTo_ok: "ws \<notin> broken m \<Longrightarrow> sendTo ws p m = m\<lparr>outbox := outbox m @ [(ws, p)]\<rparr>"
  by (simp add: sendTo_def sendTo_with_def)

lemma recipients_outbox [simp]: "recipients (m\<lparr>outbox := x\<rparr>) us ex = recipients m us ex"
  by (simp add: recipients_def)

lemma broadcast_fold_ok:
  "broken m = {} \<Longrightarrow>
   foldl (broadcast_step_with leave p ex) m us =
     m\<lparr>outbox := outbox m @ map (\<lambda>w. (w, p)) (recipients m us ex)\<rparr>"
proof (induction us arbitrary: m)
  case Nil
  show ?case by (simp add: recipients_def)
next
  case (Cons u us)
  show ?case
  proof (cases "map_get (fst u) (connections m)")
    case None
    then have "broadcast_step_with leave p ex m u = m"
      by (simp add: broadcast_step_with_def)
    then show ?thesis
      using Cons.IH [OF Cons.prems] None by (simp add: recipients_def)
  next
    case (Some conn)
    show ?thesis
    proof (cases "Some (fst conn) = ex")
      case True
      then have "broadcast_step_with leave p ex m u = m"
        using Some by (simp add: broadcast_step_with_def)
      then show ?thesis
        using Cons.IH [OF Cons.prems] Some True by (simp add: recipients_def)
    next
      case False
      let ?m1 = "m\<lparr>outbox := outbox m @ [(fst conn, p)]\<rparr>"
      have step: "broadcast_step_with leave p ex m u = ?m1"
        using Some False Cons.prems by (simp add: broadcast_step_with_def sendTo_with_def)
      have b: "broken ?m1 = {}" using Cons.prems by simp
      have r: "recipients m (u # us) ex = fst conn # recipients m us ex"
        using Some False by (simp add: recipients_def)
      show ?thesis
        unfolding foldl_Cons step Cons.IH [OF b] r by simp
    qed
  qed
qed

lemma broadcastToRoom_eq:
  "broken m = {} \<Longrightarrow>
   broadcastToRoom roomId p ex m =
     (case rooms m roomId of
        None \<Rightarrow> m
      | Some room \<Rightarrow> m\<lparr>outbox := outbox m @ map (\<lambda>w. (w, p)) (recipients m (users room) ex)\<rparr>)"
  by (simp add: broadcastToRoom_def broadcast_with_def broadcast_fold_ok split: option.split)

lemma broadcastToRoom_fields [simp]:
  "broken m = {} \<Longrightarrow> rooms (broadcastToRoom roomId p ex m) = rooms m"
  "broken m = {} \<Longrightarrow> connections (broadcastToRoom roomId p ex m) = connections m"
  "broken m = {} \<Longrightarrow> wsToUser (broadcastToRoom roomId p ex m) = wsToUser m"
  by (simp_all add: broadcastToRoom_eq split: option.split)

lemma sendTo_fields [simp]:
  "broken m = {} \<Longrightarrow> rooms (sendTo ws p m) = rooms m"
  "broken m = {} \<Longrightarrow> connections (sendTo ws p m) = connections m"
  "broken m = {} \<Longrightarrow> wsToUser (sendTo ws p m) = wsToUser m"
  "broken m = {} \<Longrightarrow> outbox (sendTo ws p m) = outbox m @ [(ws, p)]"
  by (simp_all add: sendTo_ok)

lemma broadcastPlaybackSync_fields [simp]:
  "broken m = {} \<Longrightarrow> rooms (broadcastPlaybackSync now roomId m) = rooms m"
  "broken m = {} \<Longrightarrow> connections (broadcastPlaybackSync now roomId m) = connections m"
  "broken m = {} \<Longrightarrow> wsToUser (broadcastPlaybackSync now roomId m) = wsToUser m"
  by (simp_all add: broadcastPlaybackSync_def Let_def split: option.split)

text \<open>\<^verbatim>\<open>leaveRoom\<close> when no socket throws: the nested calls never happen.\<close>

lemma leaveRoom_ok:
  assumes "broken m = {}"
  shows "leaveRoom u m =
     (case map_get u (connections m) of
        None \<Rightarrow> m
      | Some conn \<Rightarrow>
          (case rooms m (snd conn) of
             None \<Rightarrow> m\<lparr>connections := map_delete u (connections m),
                        wsToUser := (wsToUser m)(fst conn := None)\<rparr>
           | Some room \<Rightarrow>
               let remaining = map_delete u (users room);
                   room1 = room\<lparr>users := remaining,
                                skipVotes := set_delete u (skipVotes room),
                                hostId := (if hostId room = Some u \<and> remaining \<noteq> []
                                           then Some (fst (hd remaining)) else hostId room)\<rparr>;
                   m1 = m\<lparr>connections := map_delete u (connections m),
                          wsToUser := (wsToUser m)(fst conn := None)\<rparr>
               in m1\<lparr>rooms := (if remaining = [] then (rooms m)(snd conn := None)
                                else (rooms m)(snd conn \<mapsto> room1)),
                      outbox := outbox m @ map (\<lambda>w. (w, UserLeft u))
                                  (recipients m1 remaining None)\<rparr>))"
proof (cases "map_get u (connections m)")
  case None
  then show ?thesis by (simp add: leaveRoom_unfold leaveRoom_body_def)
next
  case (Some conn)
  note conn = this
  show ?thesis
  proof (cases "rooms m (snd conn)")
    case None
    then show ?thesis using conn by (simp add: leaveRoom_unfold leaveRoom_body_def Let_def)
  next
    case (Some room)
    define m2 where "m2 = m\<lparr>connections := map_delete u (connections m),
        wsToUser := (wsToUser m)(fst conn := None),
        rooms := (rooms m)(snd conn \<mapsto> room\<lparr>users := map_delete u (users room),
                    skipVotes := set_delete u (skipVotes room)\<rparr>)\<rparr>"
    have b: "broken m2 = {}" using assms by (simp add: m2_def)
    have bc: "broadcast_with leaveRoom (snd conn) (UserLeft u) None m2 =
              m2\<lparr>outbox := outbox m2 @ map (\<lambda>w. (w, UserLeft u))
                      (recipients m2 (map_delete u (users room)) None)\<rparr>"
      using broadcastToRoom_eq [OF b, of "snd conn" "UserLeft u" None]
      by (simp add: broadcastToRoom_def m2_def)
    have r: "recipients m2 us None =
             recipients (m\<lparr>connections := map_delete u (connections m),
                           wsToUser := (wsToUser m)(fst conn := None)\<rparr>) us None" for us
      by (simp add: recipients_def m2_def)
    show ?thesis
      using Some conn bc [unfolded m2_def] r [unfolded m2_def]
      by (simp add: leaveRoom_unfold leaveRoom_body_def Let_def
          cong: option.case_cong if_cong)
  qed
qed

lemma leaveRoom_fields_ok:
  assumes "broken m = {}" and "map_get u (connections m) = Some conn"
  shows "connections (leaveRoom u m) = map_delete u (connections m)"
    and "wsToUser (leaveRoom u m) = (wsToUser m)(fst conn := None)"
  using assms by (simp_all add: leaveRoom_ok Let_def split: option.split)

lemma skipNeeded_eq: "skipNeeded room = (length (users room) + 1) div 2"
  unfolding skipNeeded_def by linarith

section \<open>The sample session, evaluated\<close>

lemmas op_defs = createRoom_def roomName_of_def joinRoom_def userName_of_def js_or_def
  addTrack_def broadcastToRoom_eq sendTo_ok broadcastPlaybackSync_def recipients_def
  serializeRoom_def trim_def is_ws_def slice0_def USER_COLORS_def map_get_def index_opt_def
  skipNeeded_eq Let_def

lemma sample_manager_fields:
  "rooms sample_manager = sample_rooms"
  "connections sample_manager = sample_connections"
  "wsToUser sample_manager = sample_wsToUser"
  "broken sample_manager = {}"
  by (simp_all add: sample_manager_def sample_events_def new_manager_def op_defs sample_rooms_def
      sample_room_def sample_users_def sample_queue_def sample_connections_def
      sample_wsToUser_def)

lemma sample_lookup:
  "map_get ''alice'' (connections sample_manager) = Some (1, ''room0001'')"
  "map_get ''bob'' (connections sample_manager) = Some (2, ''room0001'')"
  "map_get ''carol'' (connections sample_manager) = Some (3, ''room0001'')"
  "rooms sample_manager ''room0001'' = Some sample_room"
  "wsToUser sample_manager 1 = Some ''alice''"
  "wsToUser sample_manager 2 = Some ''bob''"
  "wsToUser sample_manager 3 = Some ''carol''"
  by (simp_all add: sample_manager_fields sample_rooms_def sample_connections_def
      sample_wsToUser_def map_get_def)

lemma sample_roomForUser:
  "roomForUser ''alice'' sample_manager = Some (''room0001'', sample_room)"
  "roomForUser ''bob'' sample_manager = Some (''room0001'', sample_room)"
  by (simp_all add: roomForUser_def sample_lookup)


text \<open>
  The nested calls at work: Bob's socket throws while Alice's chat message is broadcast.
  Alice gets the message, the send to Bob evicts him (\<open>user:left\<close> goes to Alice and Carol),
  and the loop goes on to Carol.
\<close>

lemma broken_socket_evicts:
  "chat 20 ''alice'' (JStr ''hi'') (sample_manager\<lparr>broken := {2}\<rparr>) =
     \<lparr>rooms = [''room0001'' \<mapsto> sample_room\<lparr>users := [sample_users ! 0, sample_users ! 2]\<rparr>],
      connections = [(''alice'', (1, ''room0001'')), (''carol'', (3, ''room0001''))],
      wsToUser = [1 \<mapsto> ''alice'', 3 \<mapsto> ''carol''],
      outbox = outbox sample_manager @
          [(1, ChatMessage ''alice'' ''Alice'' ''hi'' 20),
           (1, UserLeft ''bob''), (3, UserLeft ''bob''),
           (3, ChatMessage ''alice'' ''Alice'' ''hi'' 20)],
      broken = {2}\<rparr>"
proof -
  have eq: "sample_manager\<lparr>broken := {2}\<rparr> =
      \<lparr>rooms = sample_rooms, connections = sample_connections,
       wsToUser = sample_wsToUser, outbox = outbox sample_manager, broken = {2}\<rparr>"
    by (rule manager.equality) (simp_all add: sample_manager_fields)
  show ?thesis
    unfolding eq
    by (simp add: chat_def sanitize_def js_or_def trim_def is_ws_def slice0_def Let_def
        broadcastToRoom_def broadcast_with_def broadcast_step_with_def sendTo_with_def
        leaveRoom_unfold leaveRoom_body_def map_get_def map_delete_def set_delete_def
        sample_rooms_def sample_room_def sample_users_def sample_connections_def
        sample_wsToUser_def)
qed

section \<open>No method changes the state of the sockets\<close>

lemma leaveByWs_broken [simp]: "broken (leaveByWs ws m) = broken m"
  by (simp add: leaveByWs_def split: option.split)

lemma joinRoom_broken: "joinRoom newId now rid name ws m = Inr m' \<Longrightarrow> broken m' = broken m"
  by (auto simp: joinRoom_def Let_def split: option.splits sum.splits)

lemma createRoom_broken: "createRoom newId now name m = Inr r \<Longrightarrow> broken (fst r) = broken m"
  by (auto simp: createRoom_def Let_def split: sum.splits)

lemma addTrack_broken [simp]: "broken (addTrack newId now u td m) = broken m"
  by (simp add: addTrack_def Let_def split: option.split)

lemma removeTrack_broken [simp]: "broken (removeTrack now u tid m) = broken m"
  by (simp add: removeTrack_def Let_def split: option.split)

lemma play_broken [simp]: "broken (play now u m) = broken m"
  by (simp add: play_def Let_def split: option.split prod.split)

lemma pause_broken [simp]: "broken (pause now u m) = broken m"
  by (simp add: pause_def Let_def split: option.split prod.split)

lemma seek_broken [simp]: "broken (seek now u t m) = broken m"
  by (simp add: seek_def Let_def split: option.split prod.split)

lemma nextTrack_broken [simp]: "broken (nextTrack now rid m) = broken m"
  by (simp add: nextTrack_def Let_def split: option.split)

lemma skip_broken [simp]: "broken (skip now u m) = broken m"
  by (simp add: skip_def Let_def split: option.split prod.split)

lemma chat_broken [simp]: "broken (chat now u body m) = broken m"
  by (simp add: chat_def Let_def split: option.split)

lemma setCrossfade_broken [simp]: "broken (setCrossfade u d m) = broken m"
  by (simp add: setCrossfade_def Let_def split: option.split)

section \<open>Creating a room\<close>

text \<open>
  Claim C10.  Every room that \<^verbatim>\<open>createRoom\<close> returns is registered under the returned id with
  \<open>crossfadeDuration = 3\<close>, an empty queue, \<open>currentIndex = -1\<close>, \<open>playbackState = paused\<close>,
  \<open>elapsed = 0\<close>, no host, no users and no skip votes; the initial crossfade lies in
  \<open>[0, 8]\<close> and is not \<open>0\<close>.
\<close>

theorem createRoom_initial_state:
  assumes "createRoom newId now name m = Inr (m', rid, nm)"
  shows "\<exists>room. rooms m' rid = Some room \<and> crossfadeDuration room = 3 \<and> queue room = []
           \<and> currentIndex room = - 1 \<and> playbackState room = Paused \<and> elapsed room = 0
           \<and> hostId room = None \<and> users room = [] \<and> skipVotes room = []
           \<and> 0 \<le> crossfadeDuration room \<and> crossfadeDuration room \<le> 8
           \<and> crossfadeDuration room \<noteq> 0"
  using assms by (auto simp: createRoom_def Let_def split: sum.splits)

theorem createRoom_initial_state_witness:
  "\<exists>m'. createRoom ''room0001'' 5 (JStr '' Party '') new_manager = Inr (m', ''room0001'', ''Party'')
     \<and> (\<exists>room. rooms m' ''room0001'' = Some room \<and> crossfadeDuration room = 3
           \<and> queue room = [] \<and> currentIndex room = - 1 \<and> playbackState room = Paused
           \<and> elapsed room = 0 \<and> hostId room = None \<and> users room = [] \<and> skipVotes room = [])"
proof -
  obtain m' where
    h: "createRoom ''room0001'' 5 (JStr '' Party '') new_manager = Inr (m', ''room0001'', ''Party'')"
    by (simp add: createRoom_def roomName_of_def trim_def is_ws_def slice0_def Let_def)
  from createRoom_initial_state [OF h] h show ?thesis by blast
qed

section \<open>The playback clock\<close>



text \<open>
  Claim C6.  A play while the room is already playing, and a pause while it is already
  paused, return the manager as it was: no field of any room changes (\<open>startedAt\<close> and
  \<open>elapsed\<close> among them) and nothing is added to the outbox.
\<close>

theorem play_pause_noop:
  assumes "roomForUser u m = Some (key, room)"
  shows "(playbackState room = Playing \<longrightarrow> play now u m = m)
       \<and> (playbackState room = Paused \<longrightarrow> pause now u m = m)"
  using assms by (simp add: play_def pause_def)

theorem play_pause_noop_witness:
  "play 40 ''alice'' sample_manager = sample_manager
   \<and> pause 50 ''bob'' (pause 40 ''alice'' sample_manager) = pause 40 ''alice'' sample_manager"
proof -
  have 1: "play 40 ''alice'' sample_manager = sample_manager"
    using play_pause_noop [OF sample_roomForUser(1), of 40] by (simp add: sample_room_def)
  have r: "roomForUser ''bob'' (pause 40 ''alice'' sample_manager) =
             Some (''room0001'', sample_room\<lparr>elapsed := 3 / 100, playbackState := Paused\<rparr>)"
    by (simp add: pause_def roomForUser_def sample_lookup sample_manager_fields(4) Let_def
        sample_room_def)
  have 2: "pause 50 ''bob'' (pause 40 ''alice'' sample_manager) = pause 40 ''alice'' sample_manager"
    using play_pause_noop [OF r, of 50] by simp
  from 1 2 show ?thesis by simp
qed

section \<open>Joining: the stored user name\<close>

text \<open>
  Claim C7.  The claim wants the stored name to be \<open>Anonymous\<close> whenever the trimmed
  \<^verbatim>\<open>userName\<close> is empty.  \<^verbatim>\<open>joinRoom\<close> applies \<^verbatim>\<open>|| "Anonymous"\<close> before it trims, so a name of
  white space only is truthy, passes the default, and is trimmed to the empty string
  (\<^verbatim>\<open>createRoom\<close> trims before it tests).  Here Dave joins the sample room over socket 4 with
  the name of three spaces: the join succeeds and the stored name is empty.
\<close>

theorem joinRoom_whitespace_name:
  "case joinRoom ''dave'' 20 ''room0001'' (JStr ''   '') 4 sample_manager of
     Inl e \<Rightarrow> False
   | Inr m' \<Rightarrow>
       (case rooms m' ''room0001'' of
          None \<Rightarrow> False
        | Some r \<Rightarrow> map_get ''dave'' (users r) =
            Some \<lparr>user_id = ''dave'', user_name = '''', color = ''#4CAF50''\<rparr>)"
  by (simp add: joinRoom_def sample_lookup sample_manager_fields(4) userName_of_def js_or_def
      trim_def is_ws_def slice0_def Let_def sample_room_def sample_users_def USER_COLORS_def
      map_get_def)

section \<open>Chat\<close>






section \<open>Removing a track\<close>

lemma findIndex_SomeD:
  "findIndex P xs = Some i \<Longrightarrow> i < length xs \<and> P (xs ! i) \<and> (\<forall>j < i. \<not> P (xs ! j))"
proof (induction xs arbitrary: i)
  case Nil
  then show ?case by simp
next
  case (Cons x xs)
  show ?case
  proof (cases "P x")
    case True
    with Cons.prems show ?thesis by simp
  next
    case False
    with Cons.prems obtain k where k: "findIndex P xs = Some k" and i: "i = Suc k"
      by auto
    from Cons.IH [OF k] False show ?thesis
      by (auto simp: i nth_Cons split: nat.split)
  qed
qed

lemma length_splice1: "i < length xs \<Longrightarrow> length (splice1 i xs) = length xs - 1"
  by (simp add: splice1_def)

text \<open>
  Claim C1.  Let a connected user \<open>u\<close> ask to remove the track id \<open>tid\<close>, let \<open>i\<close> be the
  index \<^verbatim>\<open>findIndex\<close> gives for it in the room's queue, and let \<open>u\<close> be the host or the one who
  added that track.  Then the queue loses its element at \<open>i\<close>, and exactly one fix-up
  applies.  \<open>i < currentIndex\<close>: \<open>currentIndex\<close> is decremented and nothing else changes.
  \<open>i = currentIndex\<close> and the queue is now empty: \<open>currentIndex = -1\<close>, paused, \<open>elapsed = 0\<close>,
  votes cleared.  \<open>i = currentIndex\<close> and \<open>i\<close> is at or past the new length:
  \<open>currentIndex\<close> is the new last index, \<open>elapsed = 0\<close>, \<open>startedAt = now\<close>, playing, votes
  cleared.  \<open>i = currentIndex\<close> otherwise: \<open>currentIndex\<close> is kept, \<open>elapsed = 0\<close>,
  \<open>startedAt = now\<close>, playing, votes cleared.  \<open>i > currentIndex\<close>: only the queue changes.
  Each case gives the whole room \<open>room'\<close> that the method has made of the room when it turns
  to its two broadcasts, so every field the case does not name is unchanged; the method
  returns what \<open>queue:updated\<close> and \<open>playback:sync\<close> make of the manager that holds
  \<open>room'\<close>.  Sockets may throw.
\<close>

theorem removeTrack_fixup_cases:
  assumes conn: "map_get u (connections m) = Some (ws, rid)" and room: "rooms m rid = Some room"
    and idx: "findIndex (\<lambda>t. track_id t = tid) (queue room) = Some i"
    and perm: "hostId room = Some u \<or> addedBy (queue room ! i) = u"
  shows "\<exists>room' q'.
       removeTrack now u tid m =
         broadcastPlaybackSync now rid
           (broadcastToRoom rid (QueueUpdated q' (currentIndex room')) None
              (m\<lparr>rooms := (rooms m)(rid \<mapsto> room')\<rparr>))
     \<and> i < length (queue room) \<and> track_id (queue room ! i) = tid
     \<and> q' = take i (queue room) @ drop (Suc i) (queue room)
     \<and> queue room' = q'
     \<and> (int i < currentIndex room \<longrightarrow>
          room' = room\<lparr>queue := q', currentIndex := currentIndex room - 1\<rparr>)
     \<and> (int i = currentIndex room \<and> q' = [] \<longrightarrow>
          room' = room\<lparr>queue := q', currentIndex := - 1, playbackState := Paused,
                       elapsed := 0, skipVotes := []\<rparr>)
     \<and> (int i = currentIndex room \<and> q' \<noteq> [] \<and> int (length q') \<le> int i \<longrightarrow>
          room' = room\<lparr>queue := q', currentIndex := int (length q') - 1, elapsed := 0,
                       startedAt := now, playbackState := Playing, skipVotes := []\<rparr>)
     \<and> (int i = currentIndex room \<and> q' \<noteq> [] \<and> int i < int (length q') \<longrightarrow>
          room' = room\<lparr>queue := q', elapsed := 0, startedAt := now,
                       playbackState := Playing, skipVotes := []\<rparr>)
     \<and> (currentIndex room < int i \<longrightarrow> room' = room\<lparr>queue := q'\<rparr>)"
proof -
  from findIndex_SomeD [OF idx]
  have i: "i < length (queue room)" and t: "track_id (queue room ! i) = tid" by auto
  let ?q = "take i (queue room) @ drop (Suc i) (queue room)"
  let ?r = "removeTrack_fixup now i (room\<lparr>queue := ?q\<rparr>)"
  have q: "queue ?r = ?q"
    by (simp add: removeTrack_fixup_def)
  have r: "removeTrack now u tid m =
         broadcastPlaybackSync now rid
           (broadcastToRoom rid (QueueUpdated ?q (currentIndex ?r)) None
              (m\<lparr>rooms := (rooms m)(rid \<mapsto> ?r)\<rparr>))"
    using conn room idx perm q by (auto simp: removeTrack_def Let_def splice1_def)
  have cases: "(int i < currentIndex room \<longrightarrow>
          ?r = room\<lparr>queue := ?q, currentIndex := currentIndex room - 1\<rparr>)
     \<and> (int i = currentIndex room \<and> ?q = [] \<longrightarrow>
          ?r = room\<lparr>queue := ?q, currentIndex := - 1, playbackState := Paused,
                       elapsed := 0, skipVotes := []\<rparr>)
     \<and> (int i = currentIndex room \<and> ?q \<noteq> [] \<and> int (length ?q) \<le> int i \<longrightarrow>
          ?r = room\<lparr>queue := ?q, currentIndex := int (length ?q) - 1, elapsed := 0,
                       startedAt := now, playbackState := Playing, skipVotes := []\<rparr>)
     \<and> (int i = currentIndex room \<and> ?q \<noteq> [] \<and> int i < int (length ?q) \<longrightarrow>
          ?r = room\<lparr>queue := ?q, elapsed := 0, startedAt := now,
                       playbackState := Playing, skipVotes := []\<rparr>)
     \<and> (currentIndex room < int i \<longrightarrow> ?r = room\<lparr>queue := ?q\<rparr>)"
    using i unfolding removeTrack_fixup_def by (auto simp: min_def)
  from r q cases i t show ?thesis by blast
qed

theorem removeTrack_fixup_cases_witness:
  "removeTrack 20 ''bob'' ''tB'' sample_manager =
     broadcastPlaybackSync 20 ''room0001''
       (broadcastToRoom ''room0001'' (QueueUpdated [sample_queue ! 0, sample_queue ! 2] 0) None
          (sample_manager\<lparr>rooms := (rooms sample_manager)(''room0001'' \<mapsto>
             sample_room\<lparr>queue := [sample_queue ! 0, sample_queue ! 2]\<rparr>)\<rparr>))
   \<and> removeTrack 20 ''alice'' ''tA'' sample_manager =
     broadcastPlaybackSync 20 ''room0001''
       (broadcastToRoom ''room0001'' (QueueUpdated [sample_queue ! 1, sample_queue ! 2] 0) None
          (sample_manager\<lparr>rooms := (rooms sample_manager)(''room0001'' \<mapsto>
             sample_room\<lparr>queue := [sample_queue ! 1, sample_queue ! 2], elapsed := 0,
                          startedAt := 20, playbackState := Playing, skipVotes := []\<rparr>)\<rparr>))"
proof -
  have idx: "findIndex (\<lambda>t. track_id t = ''tB'') (queue sample_room) = Some 1"
    by (simp add: sample_room_def sample_queue_def)
  have perm: "hostId sample_room = Some ''bob'' \<or> addedBy (queue sample_room ! 1) = ''bob''"
    by (simp add: sample_room_def sample_queue_def)
  have idx': "findIndex (\<lambda>t. track_id t = ''tA'') (queue sample_room) = Some 0"
    by (simp add: sample_room_def sample_queue_def)
  have perm': "hostId sample_room = Some ''alice'' \<or> addedBy (queue sample_room ! 0) = ''alice''"
    by (simp add: sample_room_def sample_queue_def)
  have q: "queue sample_room = sample_queue" "currentIndex sample_room = 0"
    "length sample_queue = 3"
    by (simp_all add: sample_room_def sample_queue_def)
  have t1: "take (Suc 0) sample_queue @ drop (Suc (Suc 0)) sample_queue =
              [sample_queue ! 0, sample_queue ! 2]"
    and t0: "drop (Suc 0) sample_queue = [sample_queue ! Suc 0, sample_queue ! 2]"
    by (simp_all add: sample_queue_def)
  have 1: "removeTrack 20 ''bob'' ''tB'' sample_manager =
     broadcastPlaybackSync 20 ''room0001''
       (broadcastToRoom ''room0001'' (QueueUpdated [sample_queue ! 0, sample_queue ! 2] 0) None
          (sample_manager\<lparr>rooms := (rooms sample_manager)(''room0001'' \<mapsto>
             sample_room\<lparr>queue := [sample_queue ! 0, sample_queue ! 2]\<rparr>)\<rparr>))"
    using removeTrack_fixup_cases [OF sample_lookup(2) sample_lookup(4) idx perm, of 20]
    by (auto simp: q t1)
  have 2: "removeTrack 20 ''alice'' ''tA'' sample_manager =
     broadcastPlaybackSync 20 ''room0001''
       (broadcastToRoom ''room0001'' (QueueUpdated [sample_queue ! 1, sample_queue ! 2] 0) None
          (sample_manager\<lparr>rooms := (rooms sample_manager)(''room0001'' \<mapsto>
             sample_room\<lparr>queue := [sample_queue ! 1, sample_queue ! 2], elapsed := 0,
                          startedAt := 20, playbackState := Playing, skipVotes := []\<rparr>)\<rparr>))"
    using removeTrack_fixup_cases [OF sample_lookup(1) sample_lookup(4) idx' perm', of 20]
    by (auto simp: q t0)
  from 1 2 show ?thesis by simp
qed

section \<open>Skip votes\<close>





section \<open>Leaving a room\<close>




section \<open>The invariant I1\<close>

lemma all_rooms_fields [simp]:
  "all_rooms P (m\<lparr>outbox := a\<rparr>) = all_rooms P m"
  "all_rooms P (m\<lparr>connections := b\<rparr>) = all_rooms P m"
  "all_rooms P (m\<lparr>wsToUser := c\<rparr>) = all_rooms P m"
  "all_rooms P (m\<lparr>broken := d\<rparr>) = all_rooms P m"
  by (simp_all add: all_rooms_def)

lemma all_rooms_upd:
  "all_rooms P m \<Longrightarrow> P r \<Longrightarrow> all_rooms P (m\<lparr>rooms := (rooms m)(k \<mapsto> r)\<rparr>)"
  by (simp add: all_rooms_def)

lemma all_rooms_del:
  "all_rooms P m \<Longrightarrow> all_rooms P (m\<lparr>rooms := (rooms m)(k := None)\<rparr>)"
  by (simp add: all_rooms_def)

lemma all_rooms_D: "all_rooms P m \<Longrightarrow> rooms m k = Some r \<Longrightarrow> P r"
  by (simp add: all_rooms_def)

lemma I1_removeTrack_fixup:
  assumes "I1 room" and "i < length (queue room)"
  shows "I1 (removeTrack_fixup now i (room\<lparr>queue := splice1 i (queue room)\<rparr>))"
  using assms unfolding I1_def removeTrack_fixup_def splice1_def
  by (auto simp: min_def)

lemma I1_frame [simp]:
  "I1 (r\<lparr>skipVotes := a\<rparr>) = I1 r"
  "I1 (r\<lparr>hostId := b\<rparr>) = I1 r"
  "I1 (r\<lparr>users := c\<rparr>) = I1 r"
  "I1 (r\<lparr>elapsed := d\<rparr>) = I1 r"
  "I1 (r\<lparr>startedAt := e\<rparr>) = I1 r"
  "I1 (r\<lparr>playbackState := f\<rparr>) = I1 r"
  "I1 (r\<lparr>crossfadeDuration := g\<rparr>) = I1 r"
  by (simp_all add: I1_def)

lemma I1_stop [simp]: "I1 (r\<lparr>currentIndex := - 1\<rparr>)"
  by (simp add: I1_def)

text \<open>
  \<^verbatim>\<open>leaveRoom\<close> touches \<open>users\<close>, \<open>skipVotes\<close> and \<open>hostId\<close> only, or deletes the room; so do
  the evictions that a throwing socket sets off inside a broadcast.
\<close>

lemma I1_broadcast_with:
  assumes "all_rooms I1 m" and "\<And>v m'. all_rooms I1 m' \<Longrightarrow> all_rooms I1 (leave v m')"
  shows "all_rooms I1 (broadcast_with leave rid p ex m)"
proof (rule broadcast_with_rule [where P = "all_rooms I1"])
  show "all_rooms I1 m" by (rule assms(1))
next
  fix m' :: manager and ws assume "all_rooms I1 m'"
  then show "all_rooms I1 (m'\<lparr>outbox := outbox m' @ [(ws, p)]\<rparr>)" by simp
next
  fix m' :: manager and w v assume "all_rooms I1 m'" and "wsToUser m' w = Some v"
  then show "all_rooms I1 (leave v m')" by (intro assms(2))
qed

lemma I1_leaveRoom_body:
  assumes inv: "all_rooms I1 m"
    and leave: "\<And>v m'. all_rooms I1 m' \<Longrightarrow> all_rooms I1 (leave v m')"
  shows "all_rooms I1 (leaveRoom_body leave u m)"
proof (cases "map_get u (connections m)")
  case None
  then show ?thesis using inv by (simp add: leaveRoom_body_def)
next
  case (Some conn)
  note conn = this
  show ?thesis
  proof (cases "rooms m (snd conn)")
    case None
    then show ?thesis using conn inv by (simp add: leaveRoom_body_def Let_def)
  next
    case (Some room)
    define m2 where "m2 = m\<lparr>connections := map_delete u (connections m),
        wsToUser := (wsToUser m)(fst conn := None),
        rooms := (rooms m)(snd conn \<mapsto> room\<lparr>users := map_delete u (users room),
                    skipVotes := set_delete u (skipVotes room)\<rparr>)\<rparr>"
    define m3 where "m3 = broadcast_with leave (snd conn) (UserLeft u) None m2"
    have "I1 room" using inv Some by (rule all_rooms_D)
    then have "all_rooms I1 m2"
      using inv by (simp add: m2_def all_rooms_def)
    then have i3: "all_rooms I1 m3"
      unfolding m3_def using leave by (rule I1_broadcast_with)
    have fin: "all_rooms I1
        (case rooms m3 (snd conn) of
           None \<Rightarrow> m3
         | Some room3 \<Rightarrow>
             let room4 = (if hostId room3 = Some u \<and> length (users room3) > 0
                          then room3\<lparr>hostId := Some (fst (hd (users room3)))\<rparr> else room3)
             in if length (users room4) = 0
                then m3\<lparr>rooms := (rooms m3)(snd conn := None)\<rparr>
                else m3\<lparr>rooms := (rooms m3)(snd conn \<mapsto> room4)\<rparr>)"
    proof (cases "rooms m3 (snd conn)")
      case None
      then show ?thesis using i3 by simp
    next
      case (Some room3)
      have "I1 room3" using i3 Some by (rule all_rooms_D)
      then show ?thesis
        using Some i3 by (simp add: Let_def all_rooms_upd all_rooms_del)
    qed
    show ?thesis
      using Some conn fin [unfolded m3_def m2_def]
      by (simp add: leaveRoom_body_def Let_def cong: option.case_cong if_cong)
  qed
qed

lemma I1_leaveRoom_n: "all_rooms I1 m \<Longrightarrow> all_rooms I1 (leaveRoom_n k u m)"
proof (induction k arbitrary: u m)
  case 0
  then show ?case by simp
next
  case (Suc k)
  show ?case
    unfolding leaveRoom_n.simps using Suc.prems Suc.IH by (rule I1_leaveRoom_body)
qed

lemma I1_leaveRoom: "all_rooms I1 m \<Longrightarrow> all_rooms I1 (leaveRoom u m)"
  unfolding leaveRoom_def by (rule I1_leaveRoom_n)

lemma I1_broadcastToRoom:
  assumes "all_rooms I1 m"
  shows "all_rooms I1 (broadcastToRoom rid p ex m)"
  unfolding broadcastToRoom_def using assms by (rule I1_broadcast_with) (rule I1_leaveRoom)

lemma I1_sendTo:
  assumes "all_rooms I1 m"
  shows "all_rooms I1 (sendTo ws p m)"
  unfolding sendTo_def
  by (rule sendTo_with_rule [where P = "all_rooms I1"]) (simp_all add: assms I1_leaveRoom)

lemma I1_broadcastPlaybackSync:
  "all_rooms I1 m \<Longrightarrow> all_rooms I1 (broadcastPlaybackSync now rid m)"
  by (simp add: broadcastPlaybackSync_def Let_def I1_broadcastToRoom split: option.split)

lemmas I1_intros = I1_broadcastPlaybackSync I1_broadcastToRoom I1_sendTo all_rooms_upd

lemma I1_createRoom:
  "all_rooms I1 m \<Longrightarrow> createRoom newId now name m = Inr r \<Longrightarrow> all_rooms I1 (fst r)"
  by (auto simp: createRoom_def Let_def I1_def split: sum.splits intro!: all_rooms_upd)

lemma I1_joinRoom:
  assumes "all_rooms I1 m" and "joinRoom newId now rid name ws m = Inr m'"
  shows "all_rooms I1 m'"
proof (cases "rooms m rid")
  case None
  then show ?thesis using assms by (auto simp: joinRoom_def I1_sendTo)
next
  case (Some room)
  have "I1 room" using assms(1) Some by (rule all_rooms_D)
  then show ?thesis
    using assms Some
    by (auto simp: joinRoom_def Let_def split: sum.splits intro!: I1_intros)
qed

lemma I1_leaveByWs: "all_rooms I1 m \<Longrightarrow> all_rooms I1 (leaveByWs ws m)"
  by (simp add: leaveByWs_def I1_leaveRoom split: option.split)

lemma I1_push:
  "I1 r \<Longrightarrow>
   I1 (if currentIndex r = - 1
       then r\<lparr>queue := queue r @ [t], currentIndex := 0, elapsed := 0, startedAt := now,
              playbackState := Playing\<rparr>
       else r\<lparr>queue := queue r @ [t]\<rparr>)"
  by (auto simp: I1_def)

lemma I1_addTrack: "all_rooms I1 m \<Longrightarrow> all_rooms I1 (addTrack newId now u td m)"
proof -
  assume a: "all_rooms I1 m"
  show ?thesis
  proof (cases "roomForUser u m")
    case None
    then show ?thesis
      using a by (auto simp: addTrack_def roomForUser_def split: option.splits)
  next
    case (Some kr)
    then obtain conn room where c: "map_get u (connections m) = Some conn"
      and r: "rooms m (snd conn) = Some room"
      by (auto simp: roomForUser_def split: option.splits)
    from I1_push [OF all_rooms_D [OF a r]] show ?thesis
      using a c r by (auto simp: addTrack_def Let_def intro!: I1_intros)
  qed
qed

lemma I1_removeTrack: "all_rooms I1 m \<Longrightarrow> all_rooms I1 (removeTrack now u tid m)"
proof -
  assume a: "all_rooms I1 m"
  show ?thesis
  proof (cases "map_get u (connections m)")
    case None
    then show ?thesis using a by (simp add: removeTrack_def)
  next
    case (Some conn)
    note conn = this
    show ?thesis
    proof (cases "rooms m (snd conn)")
      case None
      then show ?thesis using a conn by (simp add: removeTrack_def)
    next
      case (Some room)
      note room = this
      show ?thesis
      proof (cases "findIndex (\<lambda>t. track_id t = tid) (queue room)")
        case None
        then show ?thesis using a room conn by (simp add: removeTrack_def)
      next
        case (Some i)
        have "i < length (queue room)"
          using findIndex_SomeD [OF Some] by simp
        then have "I1 (removeTrack_fixup now i (room\<lparr>queue := splice1 i (queue room)\<rparr>))"
          using all_rooms_D [OF a room] by (intro I1_removeTrack_fixup)
        then show ?thesis
          using a room Some conn
          by (auto simp: removeTrack_def Let_def intro!: I1_intros)
      qed
    qed
  qed
qed

lemma I1_play: "all_rooms I1 m \<Longrightarrow> all_rooms I1 (play now u m)"
  by (auto simp: play_def roomForUser_def Let_def split: option.splits
      dest: all_rooms_D intro!: I1_intros)

lemma I1_pause: "all_rooms I1 m \<Longrightarrow> all_rooms I1 (pause now u m)"
  by (auto simp: pause_def roomForUser_def Let_def split: option.splits
      dest: all_rooms_D intro!: I1_intros)

lemma I1_seek: "all_rooms I1 m \<Longrightarrow> all_rooms I1 (seek now u t m)"
  by (auto simp: seek_def roomForUser_def Let_def split: option.splits
      dest: all_rooms_D intro!: I1_intros)

lemma I1_advance:
  "I1 r \<Longrightarrow>
   I1 (if length (queue r) = 0
       then r\<lparr>currentIndex := - 1, playbackState := Paused, elapsed := 0\<rparr>
       else if currentIndex r < int (length (queue r)) - 1
       then r\<lparr>currentIndex := currentIndex r + 1, elapsed := 0, startedAt := now,
              playbackState := Playing\<rparr>
       else r\<lparr>currentIndex := - 1, playbackState := Paused, elapsed := 0\<rparr>)"
  by (auto simp: I1_def)

lemma I1_nextTrack: "all_rooms I1 m \<Longrightarrow> all_rooms I1 (nextTrack now rid m)"
proof (cases "rooms m rid")
  case None
  assume "all_rooms I1 m"
  then show ?thesis using None by (simp add: nextTrack_def)
next
  case (Some room)
  assume a: "all_rooms I1 m"
  have "I1 (room\<lparr>skipVotes := []\<rparr>)"
    using all_rooms_D [OF a Some] by simp
  from I1_advance [OF this, of now] show ?thesis
    using a Some by (auto simp: nextTrack_def Let_def intro!: I1_intros)
qed

lemma I1_skip: "all_rooms I1 m \<Longrightarrow> all_rooms I1 (skip now u m)"
proof (cases "roomForUser u m")
  case None
  assume "all_rooms I1 m"
  then show ?thesis using None by (simp add: skip_def)
next
  case (Some kr)
  assume a: "all_rooms I1 m"
  obtain k r where kr: "kr = (k, r)" by (cases kr)
  have r: "rooms m k = Some r"
    using Some kr by (auto simp: roomForUser_def split: option.splits)
  let ?m1 = "m\<lparr>rooms := (rooms m)(k \<mapsto> r\<lparr>skipVotes := set_add u (skipVotes r)\<rparr>)\<rparr>"
  have 1: "all_rooms I1 ?m1"
    using a all_rooms_D [OF a r] by (simp add: all_rooms_upd)
  have 2: "all_rooms I1 (broadcastToRoom rid p None ?m1)" for rid p
    using 1 by (rule I1_broadcastToRoom)
  have 3: "all_rooms I1 (nextTrack now rid (broadcastToRoom rid p None ?m1))" for rid p
    using 2 by (rule I1_nextTrack)
  show ?thesis
    using Some kr a 2 3 by (simp add: skip_def Let_def)
qed

lemma I1_chat: "all_rooms I1 m \<Longrightarrow> all_rooms I1 (chat now u body m)"
  by (simp add: chat_def Let_def I1_broadcastToRoom split: option.splits)

lemma I1_setCrossfade: "all_rooms I1 m \<Longrightarrow> all_rooms I1 (setCrossfade u d m)"
  by (auto simp: setCrossfade_def Let_def split: option.splits
      dest: all_rooms_D intro!: I1_intros)

lemma I1_handle: "all_rooms I1 m \<Longrightarrow> all_rooms I1 (handle now ev m)"
  by (cases ev)
    (auto simp: I1_createRoom I1_joinRoom I1_leaveByWs I1_addTrack I1_removeTrack I1_play
      I1_pause I1_seek I1_skip I1_chat I1_setCrossfade I1_sendTo
      split: option.splits sum.splits)

lemma I1_run: "all_rooms I1 m \<Longrightarrow> all_rooms I1 (run es m)"
  by (induction es arbitrary: m) (simp_all add: I1_handle)

lemma I1_new_manager: "all_rooms I1 new_manager"
  by (simp add: all_rooms_def new_manager_def)

text \<open>
  Claim C3.  After every run of inbound events from the empty manager (rooms are created by
  the events; any prefix of a run is a run), every room satisfies I1: an empty queue has
  \<open>currentIndex = -1\<close>, and \<open>currentIndex\<close> is \<open>-1\<close> or an index into the queue,
  \<open>0 \<le> currentIndex < |queue|\<close>.  The events are those of the dispatcher: create, join,
  disconnect, the two outcomes of \<open>queue:add\<close>, remove, play, pause, seek, skip (with the
  \<^verbatim>\<open>nextTrack\<close> it may call), chat and crossfade; sockets may start to throw at any point of
  the run, and the evictions this sets off are covered.
\<close>

theorem I1_invariant:
  assumes "rooms (run es new_manager) rid = Some room"
  shows "(queue room = [] \<longrightarrow> currentIndex room = - 1)
       \<and> (currentIndex room = - 1 \<or>
           (0 \<le> currentIndex room \<and> currentIndex room < int (length (queue room))))"
  using all_rooms_D [OF I1_run [OF I1_new_manager] assms] by (simp add: I1_def)

theorem I1_invariant_witness:
  "rooms (run sample_events new_manager) ''room0001'' = Some sample_room
   \<and> queue sample_room \<noteq> []
   \<and> 0 \<le> currentIndex sample_room
   \<and> currentIndex sample_room < int (length (queue sample_room))"
proof -
  have h: "rooms (run sample_events new_manager) ''room0001'' = Some sample_room"
    using sample_lookup(4) by (simp add: sample_manager_def)
  have "currentIndex sample_room \<noteq> - 1" and "queue sample_room \<noteq> []"
    by (simp_all add: sample_room_def sample_queue_def)
  with I1_invariant [OF h] h show ?thesis by simp
qed

section \<open>Rooms keep their keys\<close>

lemma keyed_fields [simp]:
  "keyed (m\<lparr>outbox := a\<rparr>) = keyed m"
  "keyed (m\<lparr>connections := b\<rparr>) = keyed m"
  "keyed (m\<lparr>wsToUser := c\<rparr>) = keyed m"
  "keyed (m\<lparr>broken := d\<rparr>) = keyed m"
  by (simp_all add: keyed_def)

lemma keyed_upd:
  "keyed m \<Longrightarrow> rooms m k = Some r \<Longrightarrow> room_id r' = room_id r \<Longrightarrow>
     keyed (m\<lparr>rooms := (rooms m)(k \<mapsto> r')\<rparr>)"
  by (auto simp: keyed_def)

lemma keyed_del: "keyed m \<Longrightarrow> keyed (m\<lparr>rooms := (rooms m)(k := None)\<rparr>)"
  by (simp add: keyed_def)

lemma keyed_broadcast_with:
  assumes "keyed m" and "\<And>v m'. keyed m' \<Longrightarrow> keyed (leave v m')"
  shows "keyed (broadcast_with leave rid p ex m)"
proof (rule broadcast_with_rule [where P = keyed])
  show "keyed m" by (rule assms(1))
next
  fix m' :: manager and ws assume "keyed m'"
  then show "keyed (m'\<lparr>outbox := outbox m' @ [(ws, p)]\<rparr>)" by simp
next
  fix m' :: manager and w v assume "keyed m'" and "wsToUser m' w = Some v"
  then show "keyed (leave v m')" by (intro assms(2))
qed

lemma keyed_leaveRoom_body:
  assumes inv: "keyed m" and leave: "\<And>v m'. keyed m' \<Longrightarrow> keyed (leave v m')"
  shows "keyed (leaveRoom_body leave u m)"
proof (cases "map_get u (connections m)")
  case None
  then show ?thesis using inv by (simp add: leaveRoom_body_def)
next
  case (Some conn)
  note conn = this
  show ?thesis
  proof (cases "rooms m (snd conn)")
    case None
    then show ?thesis using conn inv by (simp add: leaveRoom_body_def Let_def)
  next
    case (Some room)
    define m2 where "m2 = m\<lparr>connections := map_delete u (connections m),
        wsToUser := (wsToUser m)(fst conn := None),
        rooms := (rooms m)(snd conn \<mapsto> room\<lparr>users := map_delete u (users room),
                    skipVotes := set_delete u (skipVotes room)\<rparr>)\<rparr>"
    define m3 where "m3 = broadcast_with leave (snd conn) (UserLeft u) None m2"
    have "keyed m2"
      using inv Some by (auto simp: m2_def keyed_def)
    then have i3: "keyed m3"
      unfolding m3_def using leave by (rule keyed_broadcast_with)
    have fin: "keyed
        (case rooms m3 (snd conn) of
           None \<Rightarrow> m3
         | Some room3 \<Rightarrow>
             let room4 = (if hostId room3 = Some u \<and> length (users room3) > 0
                          then room3\<lparr>hostId := Some (fst (hd (users room3)))\<rparr> else room3)
             in if length (users room4) = 0
                then m3\<lparr>rooms := (rooms m3)(snd conn := None)\<rparr>
                else m3\<lparr>rooms := (rooms m3)(snd conn \<mapsto> room4)\<rparr>)"
      using i3 by (auto simp: Let_def keyed_del split: option.splits intro!: keyed_upd)
    show ?thesis
      using Some conn fin [unfolded m3_def m2_def]
      by (simp add: leaveRoom_body_def Let_def cong: option.case_cong if_cong)
  qed
qed

lemma keyed_leaveRoom_n: "keyed m \<Longrightarrow> keyed (leaveRoom_n k u m)"
proof (induction k arbitrary: u m)
  case 0
  then show ?case by simp
next
  case (Suc k)
  show ?case
    unfolding leaveRoom_n.simps using Suc.prems Suc.IH by (rule keyed_leaveRoom_body)
qed

lemma keyed_leaveRoom: "keyed m \<Longrightarrow> keyed (leaveRoom u m)"
  unfolding leaveRoom_def by (rule keyed_leaveRoom_n)

lemma keyed_broadcastToRoom:
  assumes "keyed m"
  shows "keyed (broadcastToRoom rid p ex m)"
  unfolding broadcastToRoom_def using assms by (rule keyed_broadcast_with) (rule keyed_leaveRoom)

lemma keyed_sendTo:
  assumes "keyed m"
  shows "keyed (sendTo ws p m)"
  unfolding sendTo_def
  by (rule sendTo_with_rule [where P = keyed]) (simp_all add: assms keyed_leaveRoom)

lemma keyed_broadcastPlaybackSync: "keyed m \<Longrightarrow> keyed (broadcastPlaybackSync now rid m)"
  by (simp add: broadcastPlaybackSync_def Let_def keyed_broadcastToRoom split: option.split)

lemmas keyed_intros = keyed_broadcastPlaybackSync keyed_broadcastToRoom keyed_sendTo keyed_upd

lemma room_id_fixup [simp]: "room_id (removeTrack_fixup now i r) = room_id r"
  by (simp add: removeTrack_fixup_def)

lemma keyed_createRoom: "keyed m \<Longrightarrow> createRoom newId now name m = Inr r \<Longrightarrow> keyed (fst r)"
  by (auto simp: createRoom_def Let_def keyed_def split: sum.splits if_splits)

lemma keyed_joinRoom: "keyed m \<Longrightarrow> joinRoom newId now rid name ws m = Inr m' \<Longrightarrow> keyed m'"
  by (auto simp: joinRoom_def Let_def split: option.splits sum.splits intro!: keyed_intros)

lemma keyed_leaveByWs: "keyed m \<Longrightarrow> keyed (leaveByWs ws m)"
  by (simp add: leaveByWs_def keyed_leaveRoom split: option.split)

lemma keyed_addTrack: "keyed m \<Longrightarrow> keyed (addTrack newId now u td m)"
  by (auto simp: addTrack_def Let_def split: option.splits intro!: keyed_intros)

lemma keyed_removeTrack: "keyed m \<Longrightarrow> keyed (removeTrack now u tid m)"
  by (auto simp: removeTrack_def Let_def split: option.splits intro!: keyed_intros)

lemma keyed_play: "keyed m \<Longrightarrow> keyed (play now u m)"
  by (auto simp: play_def roomForUser_def Let_def split: option.splits intro!: keyed_intros)

lemma keyed_pause: "keyed m \<Longrightarrow> keyed (pause now u m)"
  by (auto simp: pause_def roomForUser_def Let_def split: option.splits intro!: keyed_intros)

lemma keyed_seek: "keyed m \<Longrightarrow> keyed (seek now u t m)"
  by (auto simp: seek_def roomForUser_def Let_def split: option.splits intro!: keyed_intros)

lemma keyed_nextTrack: "keyed m \<Longrightarrow> keyed (nextTrack now rid m)"
  by (auto simp: nextTrack_def Let_def split: option.splits intro!: keyed_intros)

lemma keyed_skip: "keyed m \<Longrightarrow> keyed (skip now u m)"
proof (cases "roomForUser u m")
  case None
  assume "keyed m"
  then show ?thesis using None by (simp add: skip_def)
next
  case (Some kr)
  assume a: "keyed m"
  obtain k x where kr: "kr = (k, x)" by (cases kr)
  have x: "rooms m k = Some x"
    using Some kr by (auto simp: roomForUser_def split: option.splits)
  let ?m1 = "m\<lparr>rooms := (rooms m)(k \<mapsto> x\<lparr>skipVotes := set_add u (skipVotes x)\<rparr>)\<rparr>"
  have 1: "keyed ?m1"
    using a x by (rule keyed_upd) simp
  have 2: "keyed (broadcastToRoom rid p None ?m1)" for rid p
    using 1 by (rule keyed_broadcastToRoom)
  have 3: "keyed (nextTrack now rid (broadcastToRoom rid p None ?m1))" for rid p
    using 2 by (rule keyed_nextTrack)
  show ?thesis
    using Some kr a 2 3 by (simp add: skip_def Let_def)
qed

lemma keyed_chat: "keyed m \<Longrightarrow> keyed (chat now u body m)"
  by (simp add: chat_def Let_def keyed_broadcastToRoom split: option.splits)

lemma keyed_setCrossfade: "keyed m \<Longrightarrow> keyed (setCrossfade u d m)"
  by (auto simp: setCrossfade_def Let_def split: option.splits intro!: keyed_intros)

lemma keyed_handle: "keyed m \<Longrightarrow> keyed (handle now ev m)"
  by (cases ev)
    (auto simp: keyed_createRoom keyed_joinRoom keyed_leaveByWs keyed_addTrack
      keyed_removeTrack keyed_play keyed_pause keyed_seek keyed_skip keyed_chat
      keyed_setCrossfade keyed_sendTo split: option.splits sum.splits)

lemma keyed_run: "keyed m \<Longrightarrow> keyed (run es m)"
  by (induction es arbitrary: m) (simp_all add: keyed_handle)

text \<open>
  In every state that a run from the empty manager reaches, a room's \<open>id\<close> is the key that
  holds it and \<open>currentIndex \<ge> -1\<close>: the two conditions that the theorem on skip votes
  asks of the room.
\<close>

lemma run_room_wellformed:
  assumes "rooms (run es new_manager) k = Some r"
  shows "room_id r = k \<and> - 1 \<le> currentIndex r"
proof -
  have "keyed new_manager" by (simp add: keyed_def new_manager_def)
  then have "keyed (run es new_manager)" by (rule keyed_run)
  then have 1: "room_id r = k" using assms by (simp add: keyed_def)
  have "I1 r" using all_rooms_D [OF I1_run [OF I1_new_manager] assms] .
  then have "- 1 \<le> currentIndex r" by (auto simp: I1_def)
  with 1 show ?thesis by simp
qed

section \<open>A second join on a bound socket\<close>

lemma orphaned_fields [simp]:
  "orphaned u ws r (m\<lparr>outbox := a\<rparr>) = orphaned u ws r m"
  "orphaned u ws r (m\<lparr>broken := b\<rparr>) = orphaned u ws r m"
  by (simp_all add: orphaned_def)

lemma orphaned_upd:
  assumes "orphaned u ws r m" and "rooms m k = Some x" and "users x' = users x"
  shows "orphaned u ws r (m\<lparr>rooms := (rooms m)(k \<mapsto> x')\<rparr>)"
  using assms by (auto simp: orphaned_def)

lemma orphaned_not_bound: "orphaned u ws r m \<Longrightarrow> wsToUser m w = Some v \<Longrightarrow> v \<noteq> u"
  by (auto simp: orphaned_def)

text \<open>
  No socket leads to an orphaned user, so no throwing socket can make \<^verbatim>\<open>sendTo\<close> call
  \<^verbatim>\<open>leaveRoom\<close> for it.
\<close>

lemma orphaned_broadcast_with:
  assumes "orphaned u ws r m"
    and "\<And>v m'. v \<noteq> u \<Longrightarrow> orphaned u ws r m' \<Longrightarrow> orphaned u ws r (leave v m')"
  shows "orphaned u ws r (broadcast_with leave rid p ex m)"
proof (rule broadcast_with_rule [where P = "orphaned u ws r"])
  show "orphaned u ws r m" by (rule assms(1))
next
  fix m' :: manager and w assume "orphaned u ws r m'"
  then show "orphaned u ws r (m'\<lparr>outbox := outbox m' @ [(w, p)]\<rparr>)" by simp
next
  fix m' :: manager and w v assume o: "orphaned u ws r m'" and b: "wsToUser m' w = Some v"
  from orphaned_not_bound [OF o b] o show "orphaned u ws r (leave v m')" by (rule assms(2))
qed

lemma orphaned_leaveRoom_body:
  assumes o: "orphaned u ws r m" and ne: "v \<noteq> u"
    and leave: "\<And>v m'. v \<noteq> u \<Longrightarrow> orphaned u ws r m' \<Longrightarrow> orphaned u ws r (leave v m')"
  shows "orphaned u ws r (leaveRoom_body leave v m)"
proof (cases "map_get v (connections m)")
  case None
  then show ?thesis using o by (simp add: leaveRoom_body_def)
next
  case (Some conn)
  note conn = this
  from o obtain room where
    c: "map_get u (connections m) = Some (ws, r)" and rm: "rooms m r = Some room"
    and mem: "u \<in> fst ` set (users room)" and nw: "\<forall>w. wsToUser m w \<noteq> Some u"
    by (auto simp: orphaned_def)
  show ?thesis
  proof (cases "rooms m (snd conn)")
    case None
    then show ?thesis
      using conn c rm mem nw ne by (auto simp: leaveRoom_body_def Let_def orphaned_def)
  next
    case (Some x)
    define m2 where "m2 = m\<lparr>connections := map_delete v (connections m),
        wsToUser := (wsToUser m)(fst conn := None),
        rooms := (rooms m)(snd conn \<mapsto> x\<lparr>users := map_delete v (users x),
                    skipVotes := set_delete v (skipVotes x)\<rparr>)\<rparr>"
    define m3 where "m3 = broadcast_with leave (snd conn) (UserLeft v) None m2"
    have mem': "u \<in> fst ` set (map_delete v (users room))"
      using mem ne by (force simp: map_delete_def)
    have "\<exists>room'. rooms m2 r = Some room' \<and> u \<in> fst ` set (users room')"
    proof (cases "snd conn = r")
      case True
      then have "x = room" using Some rm by simp
      then show ?thesis using True mem' by (simp add: m2_def)
    next
      case False
      then show ?thesis using rm mem by (simp add: m2_def)
    qed
    then have o2: "orphaned u ws r m2"
      using c nw ne by (auto simp: orphaned_def m2_def)
    have o3: "orphaned u ws r m3"
      unfolding m3_def using o2 leave by (rule orphaned_broadcast_with)
    have fin: "orphaned u ws r
        (case rooms m3 (snd conn) of
           None \<Rightarrow> m3
         | Some room3 \<Rightarrow>
             let room4 = (if hostId room3 = Some v \<and> length (users room3) > 0
                          then room3\<lparr>hostId := Some (fst (hd (users room3)))\<rparr> else room3)
             in if length (users room4) = 0
                then m3\<lparr>rooms := (rooms m3)(snd conn := None)\<rparr>
                else m3\<lparr>rooms := (rooms m3)(snd conn \<mapsto> room4)\<rparr>)"
    proof (cases "rooms m3 (snd conn)")
      case None
      then show ?thesis using o3 by simp
    next
      case (Some room3)
      from o3 obtain room' where rm3: "rooms m3 r = Some room'"
        and mem3: "u \<in> fst ` set (users room')"
        by (auto simp: orphaned_def)
      show ?thesis
      proof (cases "users room3 = []")
        case True
        then have "snd conn \<noteq> r" using Some rm3 mem3 by auto
        then show ?thesis
          using Some True o3 by (auto simp: Let_def orphaned_def)
      next
        case False
        then show ?thesis
          using Some o3 by (auto simp: Let_def intro!: orphaned_upd)
      qed
    qed
    show ?thesis
      using Some conn fin [unfolded m3_def m2_def]
      by (simp add: leaveRoom_body_def Let_def cong: option.case_cong if_cong)
  qed
qed

lemma orphaned_leaveRoom_n:
  "orphaned u ws r m \<Longrightarrow> v \<noteq> u \<Longrightarrow> orphaned u ws r (leaveRoom_n k v m)"
proof (induction k arbitrary: v m)
  case 0
  then show ?case by simp
next
  case (Suc k)
  show ?case
    unfolding leaveRoom_n.simps
    using Suc.prems(1) Suc.prems(2)
  proof (rule orphaned_leaveRoom_body)
    fix v' m' assume "v' \<noteq> u" and "orphaned u ws r m'"
    then show "orphaned u ws r (leaveRoom_n k v' m')" by (intro Suc.IH)
  qed
qed

lemma orphaned_leaveRoom:
  "orphaned u ws r m \<Longrightarrow> v \<noteq> u \<Longrightarrow> orphaned u ws r (leaveRoom v m)"
  unfolding leaveRoom_def by (rule orphaned_leaveRoom_n)

lemma orphaned_broadcastToRoom:
  assumes "orphaned u ws r m"
  shows "orphaned u ws r (broadcastToRoom rid p ex m)"
  unfolding broadcastToRoom_def using assms
proof (rule orphaned_broadcast_with)
  fix v m' assume "v \<noteq> u" and "orphaned u ws r m'"
  then show "orphaned u ws r (leaveRoom v m')" by (intro orphaned_leaveRoom)
qed

lemma orphaned_sendTo:
  assumes "orphaned u ws r m"
  shows "orphaned u ws r (sendTo w p m)"
  unfolding sendTo_def
proof (rule sendTo_with_rule [where P = "orphaned u ws r"])
  show "orphaned u ws r m" by (rule assms)
next
  fix m' :: manager and w' assume "orphaned u ws r m'"
  then show "orphaned u ws r (m'\<lparr>outbox := outbox m' @ [(w', p)]\<rparr>)" by simp
next
  fix m' :: manager and w' v assume o: "orphaned u ws r m'" and b: "wsToUser m' w' = Some v"
  from o orphaned_not_bound [OF o b] show "orphaned u ws r (leaveRoom v m')"
    by (rule orphaned_leaveRoom)
qed

lemma orphaned_broadcastPlaybackSync:
  "orphaned u ws r m \<Longrightarrow> orphaned u ws r (broadcastPlaybackSync now rid m)"
  by (simp add: broadcastPlaybackSync_def Let_def orphaned_broadcastToRoom split: option.split)

lemmas orphaned_intros = orphaned_broadcastPlaybackSync orphaned_broadcastToRoom orphaned_sendTo
  orphaned_upd

lemma users_fixup [simp]: "users (removeTrack_fixup now i r) = users r"
  by (simp add: removeTrack_fixup_def)

lemma orphaned_addTrack: "orphaned u ws r m \<Longrightarrow> orphaned u ws r (addTrack newId now v td m)"
  by (auto simp: addTrack_def Let_def split: option.splits intro!: orphaned_intros)

lemma orphaned_removeTrack: "orphaned u ws r m \<Longrightarrow> orphaned u ws r (removeTrack now v tid m)"
  by (auto simp: removeTrack_def Let_def split: option.splits intro!: orphaned_intros)

lemma orphaned_play: "orphaned u ws r m \<Longrightarrow> orphaned u ws r (play now v m)"
  by (auto simp: play_def roomForUser_def Let_def split: option.splits intro!: orphaned_intros)

lemma orphaned_pause: "orphaned u ws r m \<Longrightarrow> orphaned u ws r (pause now v m)"
  by (auto simp: pause_def roomForUser_def Let_def split: option.splits intro!: orphaned_intros)

lemma orphaned_seek: "orphaned u ws r m \<Longrightarrow> orphaned u ws r (seek now v t m)"
  by (auto simp: seek_def roomForUser_def Let_def split: option.splits intro!: orphaned_intros)

lemma orphaned_nextTrack: "orphaned u ws r m \<Longrightarrow> orphaned u ws r (nextTrack now rid m)"
  by (auto simp: nextTrack_def Let_def split: option.splits intro!: orphaned_intros)

lemma orphaned_skip: "orphaned u ws r m \<Longrightarrow> orphaned u ws r (skip now v m)"
proof (cases "roomForUser v m")
  case None
  assume "orphaned u ws r m"
  then show ?thesis using None by (simp add: skip_def)
next
  case (Some kr)
  assume a: "orphaned u ws r m"
  obtain k x where kr: "kr = (k, x)" by (cases kr)
  have x: "rooms m k = Some x"
    using Some kr by (auto simp: roomForUser_def split: option.splits)
  let ?m1 = "m\<lparr>rooms := (rooms m)(k \<mapsto> x\<lparr>skipVotes := set_add v (skipVotes x)\<rparr>)\<rparr>"
  have 1: "orphaned u ws r ?m1"
    using a x by (rule orphaned_upd) simp
  have 2: "orphaned u ws r (broadcastToRoom rid p None ?m1)" for rid p
    using 1 by (rule orphaned_broadcastToRoom)
  have 3: "orphaned u ws r (nextTrack now rid (broadcastToRoom rid p None ?m1))" for rid p
    using 2 by (rule orphaned_nextTrack)
  show ?thesis
    using Some kr a 2 3 by (simp add: skip_def Let_def)
qed

lemma orphaned_chat: "orphaned u ws r m \<Longrightarrow> orphaned u ws r (chat now v body m)"
  by (simp add: chat_def Let_def orphaned_broadcastToRoom split: option.splits)

lemma orphaned_setCrossfade: "orphaned u ws r m \<Longrightarrow> orphaned u ws r (setCrossfade v d m)"
  by (auto simp: setCrossfade_def Let_def split: option.splits intro!: orphaned_intros)

lemma orphaned_createRoom:
  "orphaned u ws r m \<Longrightarrow> newId \<noteq> r \<Longrightarrow> createRoom newId now name m = Inr res \<Longrightarrow>
     orphaned u ws r (fst res)"
  by (auto simp: createRoom_def Let_def orphaned_def split: sum.splits)

lemma orphaned_joinRoom:
  assumes "orphaned u ws r m" and "newId \<noteq> u" and "joinRoom newId now rid name w m = Inr m'"
  shows "orphaned u ws r m'"
proof (cases "rooms m rid")
  case None
  then show ?thesis
    using assms by (auto simp: joinRoom_def orphaned_sendTo)
next
  case (Some x)
  from assms(1) obtain room where
    c: "map_get u (connections m) = Some (ws, r)" and rm: "rooms m r = Some room"
    and mem: "u \<in> fst ` set (users room)" and nw: "\<forall>w. wsToUser m w \<noteq> Some u"
    by (auto simp: orphaned_def)
  from assms(3) Some obtain nm where nm: "userName_of name = Inr nm"
    by (cases "userName_of name") (simp_all add: joinRoom_def)
  define usr where "usr = \<lparr>user_id = newId, user_name = nm,
    color = USER_COLORS ! (length (users x) mod length USER_COLORS)\<rparr>"
  define x2 where "x2 = (if length (users x) = 0 then x\<lparr>hostId := Some newId\<rparr> else x)
    \<lparr>users := map_set newId usr (users x)\<rparr>"
  define m1 where "m1 = m\<lparr>rooms := (rooms m)(rid \<mapsto> x2),
      connections := map_set newId (w, rid) (connections m),
      wsToUser := (wsToUser m)(w \<mapsto> newId)\<rparr>"
  have ux2: "fst ` set (users x2) = insert newId (fst ` set (users x))"
    by (simp add: x2_def keys_map_set)
  have m': "m' = broadcastToRoom rid (UserJoined usr) (Some w)
                   (sendTo w (RoomState (serializeRoom now x2) newId) m1)"
    using assms(3) Some nm by (auto simp: joinRoom_def Let_def x2_def usr_def m1_def)
  have "\<exists>room'. rooms m1 r = Some room' \<and> u \<in> fst ` set (users room')"
  proof (cases "r = rid")
    case True
    then have "x = room" using Some rm by simp
    then show ?thesis using True mem by (simp add: m1_def ux2)
  next
    case False
    then show ?thesis using rm mem by (simp add: m1_def)
  qed
  then have "orphaned u ws r m1"
    using c nw assms(2) by (auto simp: orphaned_def m1_def)
  then show ?thesis
    unfolding m' by (intro orphaned_broadcastToRoom orphaned_sendTo)
qed

lemma orphaned_leaveByWs: "orphaned u ws r m \<Longrightarrow> orphaned u ws r (leaveByWs w m)"
proof (cases "wsToUser m w")
  case None
  assume "orphaned u ws r m"
  then show ?thesis using None by (simp add: leaveByWs_def)
next
  case (Some v)
  assume a: "orphaned u ws r m"
  then have "v \<noteq> u" using Some by (auto simp: orphaned_def)
  from orphaned_leaveRoom [OF a this] a show ?thesis
    using Some by (simp add: leaveByWs_def)
qed

lemma orphaned_handle:
  assumes "orphaned u ws r m" and "avoids_ids u r ev"
  shows "orphaned u ws r (handle now ev m)"
proof (cases ev)
  case (HttpCreateRoom newId name)
  then show ?thesis
    using assms by (auto simp: orphaned_createRoom split: sum.splits)
next
  case (WsJoin w rid name newId)
  then show ?thesis
    using assms by (auto simp: orphaned_joinRoom split: sum.splits)
next
  case (WsQueueAddInvalid w)
  then show ?thesis
    using assms(1) by (simp add: orphaned_sendTo split: option.splits)
next
  case (QueueAddResolved v td newId)
  then show ?thesis
    using assms(1) by (simp add: orphaned_addTrack)
next
  case (WsQueueRemove w tid)
  then show ?thesis
    using assms(1) by (simp add: orphaned_removeTrack split: option.splits)
next
  case (WsPlay w)
  then show ?thesis
    using assms(1) by (simp add: orphaned_play split: option.splits)
next
  case (WsPause w)
  then show ?thesis
    using assms(1) by (simp add: orphaned_pause split: option.splits)
next
  case (WsSkip w)
  then show ?thesis
    using assms(1) by (simp add: orphaned_skip split: option.splits)
next
  case (WsSeek w t)
  then show ?thesis
    using assms(1) by (simp add: orphaned_seek split: option.splits)
next
  case (WsChat w body)
  then show ?thesis
    using assms(1) by (simp add: orphaned_chat split: option.splits)
next
  case (WsCrossfade w d)
  then show ?thesis
    using assms(1) by (simp add: orphaned_setCrossfade split: option.splits)
next
  case (WsClose w)
  then show ?thesis
    using orphaned_leaveByWs [OF assms(1)] by simp
next
  case (SocketBreaks w)
  then show ?thesis
    using assms(1) by simp
qed

lemma orphaned_run:
  "orphaned u ws r m \<Longrightarrow> \<forall>e \<in> set es. avoids_ids u r (snd e) \<Longrightarrow> orphaned u ws r (run es m)"
  by (induction es arbitrary: m) (simp_all add: orphaned_handle)

text \<open>
  Claim C9.  Let the socket \<open>ws\<close> be bound to \<open>u1\<close>, a member of the room \<open>r1\<close> (and let no
  other socket lead to \<open>u1\<close>), and let a second join over \<open>ws\<close> into an existing room succeed
  with the new user id \<open>u2\<close>, while no socket throws.  Then \<open>wsToUser[ws]\<close> is \<open>u2\<close>, while
  \<open>u1\<close> is still in \<open>connections\<close> and in the users of \<open>r1\<close>.  The disconnect of \<open>ws\<close> is
  \<^verbatim>\<open>leaveRoom(u2)\<close>: it removes \<open>u2\<close> from \<open>connections\<close> and the socket from \<open>wsToUser\<close>, and
  \<open>u1\<close> stays.  After any later run of events (whose generated ids are not \<open>u1\<close> or \<open>r1\<close>
  again; sockets may start to throw) \<open>u1\<close> is still connected and still a member of \<open>r1\<close>,
  which therefore still exists, and no socket leads to \<open>u1\<close>.
\<close>

theorem second_join_orphans_first_user:
  assumes bound: "wsToUser m ws = Some u1"
    and only: "\<forall>w. wsToUser m w = Some u1 \<longrightarrow> w = ws"
    and conn: "map_get u1 (connections m) = Some (ws, r1)"
    and room1: "rooms m r1 = Some room1"
    and mem: "u1 \<in> fst ` set (users room1)"
    and exists: "rooms m rid \<noteq> None"
    and join: "joinRoom u2 now rid userName ws m = Inr m1"
    and fresh: "u2 \<noteq> u1" and nonempty: "u2 \<noteq> []"
    and alive: "broken m = {}"
    and later: "\<forall>e \<in> set es. avoids_ids u1 r1 (snd e)"
  shows "wsToUser m1 ws = Some u2
       \<and> map_get u2 (connections m1) = Some (ws, rid)
       \<and> map_get u1 (connections m1) = Some (ws, r1)
       \<and> (\<exists>room. rooms m1 r1 = Some room \<and> u1 \<in> fst ` set (users room))
       \<and> (\<exists>room. rooms m1 rid = Some room \<and> u2 \<in> fst ` set (users room))
       \<and> leaveByWs ws m1 = leaveRoom u2 m1
       \<and> connections (leaveByWs ws m1) = filter (\<lambda>p. fst p \<noteq> u2) (connections m1)
       \<and> wsToUser (leaveByWs ws m1) = (wsToUser m1)(ws := None)
       \<and> map_get u1 (connections (leaveByWs ws m1)) = Some (ws, r1)
       \<and> (\<exists>room. rooms (leaveByWs ws m1) r1 = Some room \<and> u1 \<in> fst ` set (users room))
       \<and> map_get u1 (connections (run es (leaveByWs ws m1))) = Some (ws, r1)
       \<and> (\<exists>room. rooms (run es (leaveByWs ws m1)) r1 = Some room
                  \<and> u1 \<in> fst ` set (users room))
       \<and> (\<forall>w. wsToUser (run es (leaveByWs ws m1)) w \<noteq> Some u1)"
proof -
  from exists obtain x where x: "rooms m rid = Some x" by auto
  from join x obtain nm where nm: "userName_of userName = Inr nm"
    by (cases "userName_of userName") (simp_all add: joinRoom_def)
  define usr where "usr = \<lparr>user_id = u2, user_name = nm,
    color = USER_COLORS ! (length (users x) mod length USER_COLORS)\<rparr>"
  define x2 where "x2 = (if length (users x) = 0 then x\<lparr>hostId := Some u2\<rparr> else x)
    \<lparr>users := map_set u2 usr (users x)\<rparr>"
  have ux2: "fst ` set (users x2) = insert u2 (fst ` set (users x))"
    by (simp add: x2_def keys_map_set)
  have m1: "rooms m1 = (rooms m)(rid \<mapsto> x2)"
    "connections m1 = map_set u2 (ws, rid) (connections m)"
    "wsToUser m1 = (wsToUser m)(ws \<mapsto> u2)"
    "broken m1 = {}"
    using join x nm alive by (auto simp: joinRoom_def Let_def x2_def usr_def)
  have a1: "wsToUser m1 ws = Some u2" and a2: "map_get u2 (connections m1) = Some (ws, rid)"
    and a3: "map_get u1 (connections m1) = Some (ws, r1)"
    using conn fresh by (simp_all add: m1)
  have a4: "\<exists>room. rooms m1 r1 = Some room \<and> u1 \<in> fst ` set (users room)"
  proof (cases "r1 = rid")
    case True
    then have "x = room1" using x room1 by simp
    then show ?thesis using True mem by (simp add: m1 ux2)
  next
    case False
    then show ?thesis using room1 mem by (simp add: m1)
  qed
  have a5: "\<exists>room. rooms m1 rid = Some room \<and> u2 \<in> fst ` set (users room)"
    by (simp add: m1 ux2)
  have nobody: "\<forall>w. wsToUser m1 w \<noteq> Some u1"
    using only fresh by (auto simp: m1)
  have o1: "orphaned u1 ws r1 m1"
    using a3 a4 nobody by (simp add: orphaned_def)
  have b0: "leaveByWs ws m1 = leaveRoom u2 m1"
    using a1 nonempty by (simp add: leaveByWs_def)
  have b1: "connections (leaveByWs ws m1) = filter (\<lambda>p. fst p \<noteq> u2) (connections m1)"
    and b2: "wsToUser (leaveByWs ws m1) = (wsToUser m1)(ws := None)"
    unfolding b0 using leaveRoom_fields_ok [OF m1(4) a2] by (simp_all add: map_delete_def)
  have o2: "orphaned u1 ws r1 (leaveByWs ws m1)"
    using o1 by (rule orphaned_leaveByWs)
  have o3: "orphaned u1 ws r1 (run es (leaveByWs ws m1))"
    using o2 later by (rule orphaned_run)
  show ?thesis
    using a1 a2 a3 a4 a5 b0 b1 b2 o2 o3 unfolding orphaned_def by blast
qed

theorem second_join_orphans_first_user_witness:
  "map_get ''alice'' (connections
      (run [(30, WsClose 2), (31, SocketBreaks 3), (32, WsPause 1), (33, WsClose 1)]
        (leaveByWs 1 (handle 20 (WsJoin 1 ''room0001'' (JStr ''Dave'') ''dave'') sample_manager))))
     = Some (1, ''room0001'')
   \<and> (\<exists>room. rooms (run [(30, WsClose 2), (31, SocketBreaks 3), (32, WsPause 1), (33, WsClose 1)]
      (leaveByWs 1 (handle 20 (WsJoin 1 ''room0001'' (JStr ''Dave'') ''dave'') sample_manager)))
        ''room0001'' = Some room \<and> ''alice'' \<in> fst ` set (users room))"
proof -
  obtain m1 where j: "joinRoom ''dave'' 20 ''room0001'' (JStr ''Dave'') 1 sample_manager = Inr m1"
    by (simp add: joinRoom_def sample_lookup userName_of_def js_or_def Let_def)
  then have h: "handle 20 (WsJoin 1 ''room0001'' (JStr ''Dave'') ''dave'') sample_manager = m1"
    by simp
  have only: "\<forall>w. wsToUser sample_manager w = Some ''alice'' \<longrightarrow> w = 1"
    by (simp add: sample_manager_fields sample_wsToUser_def)
  have mem: "''alice'' \<in> fst ` set (users sample_room)"
    by (simp add: sample_room_def sample_users_def)
  have ex: "rooms sample_manager ''room0001'' \<noteq> None"
    by (simp add: sample_lookup)
  have later: "\<forall>e \<in> set [(30, WsClose 2), (31, SocketBreaks 3), (32, WsPause 1),
      (33::real, WsClose 1)]. avoids_ids ''alice'' ''room0001'' (snd e)"
    by simp
  have fresh: "''dave'' \<noteq> ''alice''" and nonempty: "''dave'' \<noteq> []"
    by simp_all
  show ?thesis
    unfolding h
    using second_join_orphans_first_user [OF sample_lookup(5) only sample_lookup(1)
        sample_lookup(4) mem ex j fresh nonempty sample_manager_fields(4) later]
    by blast
qed

end
